theory Spec2Isabelle
  imports Main "HOL-Library.Sublist" "HOL-Library.Char_ord" "HOL-Library.List_Lexorder"
begin

section \<open>The script console of the editor plugin: autocompletion\<close>

text \<open>
  The development embeds the autocompletion code of \<^verbatim>\<open>ConsolePlugin\<close>
  (\<^verbatim>\<open>src/editor/plugins.cpp\<close>): \<^verbatim>\<open>autocompleteSubstep\<close>, the recursive walk
  over the objects of the script engine, and \<^verbatim>\<open>autocompleteCallback\<close>, which
  cuts the word under the cursor out of the text buffer, runs the walk from the global
  object and sorts what it found.

  A C string is modelled as the list of its bytes before the terminating NUL.
\<close>

subsection \<open>The objects of the script engine\<close>

text \<open>
  The namespace is a graph of engine objects. An object is held at an address, so that
  two properties can hold the same object and an object can hold itself. A property is
  either a plain data property or an accessor, whose getter is script code.
\<close>

datatype jsval = Undefined | Number int | Str string | Object nat

datatype property = Data jsval | Accessor jsval

type_synonym obj = "(string \<times> property) list"

text \<open>
  The engine context: the heap of objects, the address of the global object, and the
  record of the getters that were run, each as the object's address and the property's
  name. The property list of an object is what an enumeration with the flags \<^verbatim>\<open>DUK_ENUM_INCLUDE_SYMBOLS\<close> and
  \<^verbatim>\<open>DUK_ENUM_INCLUDE_NONENUMERABLE\<close> walks, in that order.
\<close>

record duk_context =
  heap :: "nat \<Rightarrow> obj"
  global_object :: nat
  getter_calls :: "(nat \<times> string) list"

datatype error =
    ItemOverflow  \<comment> \<open>a write past the end of the local buffer \<^verbatim>\<open>item\<close>\<close>
  | TypeError     \<comment> \<open>the engine's error for an enumeration of a value that is no object\<close>
  | InsertValueOverrun  \<comment> \<open>a read of \<^verbatim>\<open>insert_value\<close> outside the string\<close>

text \<open>
  Modelled from the spec: the script engine (\<^verbatim>\<open>duk_enum\<close>, \<^verbatim>\<open>duk_next\<close>,
  \<^verbatim>\<open>duk_to_string\<close>, \<^verbatim>\<open>duk_get_prop_string\<close>) is a library the plugin calls;
  it is not part of the plugin's source. The spec's namespace node is an object that
  maps property names to child values, which are nodes or scalars, and the enumeration
  lists all its property names. Where the spec leaves the engine's answer open, the
  model follows the engine's interface:
  \<^item> \<^verbatim>\<open>duk_enum\<close> needs an object at the given stack index and throws a
    \<^verbatim>\<open>TypeError\<close> for any other value; nothing in the plugin catches it.
    The enumerator holds the property names of the object.
  \<^item> \<^verbatim>\<open>duk_next\<close> with \<^verbatim>\<open>get_value = 0\<close> hands out the next name
    only, and \<^verbatim>\<open>duk_to_string\<close> gives its text; the loop over the list of
    names in \<open>enum_loop\<close> below is that iteration.
  \<^item> \<^verbatim>\<open>duk_get_prop_string\<close> reads the property: a data property gives its
    value, an accessor property runs its getter and gives what the getter returns, a
    missing property gives \<^verbatim>\<open>undefined\<close>. Of a getter's run the model keeps
    that it happened and what it returned.
\<close>

definition duk_enum :: "duk_context \<Rightarrow> jsval \<Rightarrow> error + (nat \<times> string list)" where
  "duk_enum ctx v =
     (case v of
        Object a \<Rightarrow> Inr (a, map fst (heap ctx a))
      | _ \<Rightarrow> Inl TypeError)"

definition duk_get_prop_string :: "duk_context \<Rightarrow> nat \<Rightarrow> string \<Rightarrow> jsval \<times> duk_context" where
  "duk_get_prop_string ctx a name =
     (case map_of (heap ctx a) name of
        None \<Rightarrow> (Undefined, ctx)
      | Some (Data v) \<Rightarrow> (v, ctx)
      | Some (Accessor v) \<Rightarrow> (v, ctx\<lparr>getter_calls := getter_calls ctx @ [(a, name)]\<rparr>))"

subsection \<open>The engine's string helpers\<close>

text \<open>
  Modelled from the spec: \<^verbatim>\<open>startsWith\<close> is a helper of the host engine and is
  not part of the plugin's source; the spec has the walk keep the names whose text
  begins with the given text, and all names when that text is empty.
\<close>

fun startsWith :: "string \<Rightarrow> string \<Rightarrow> bool" where
  "startsWith str [] = True"
| "startsWith [] (p # ps) = False"
| "startsWith (c # cs) (p # ps) = (c = p \<and> startsWith cs ps)"

subsection \<open>The plugin's state\<close>

record ConsolePlugin =
  autocomplete :: "string list"
  open_autocomplete :: bool
  insert_value :: "string option"

subsection \<open>\<^verbatim>\<open>autocompleteSubstep\<close>\<close>

text \<open>
  The first loop copies the bytes of \<^verbatim>\<open>str\<close> up to the first dot or the end
  into \<^verbatim>\<open>char item[128]\<close> and then writes the terminating NUL. The loop has no
  check of its own; the model makes every write explicit: \<open>c\<close> is the offset of the
  write pointer into \<^verbatim>\<open>item\<close>, and a write at an offset that is not below 128
  is the error \<open>ItemOverflow\<close>. The result is the text of \<^verbatim>\<open>item\<close> and the
  rest of the string at \<^verbatim>\<open>next\<close>.
\<close>

definition item_size :: nat where
  "item_size = 128"

fun copy_segment :: "string \<Rightarrow> nat \<Rightarrow> string \<Rightarrow> error + (string \<times> string)" where
  "copy_segment [] c item =
     (if c < item_size then Inr (item, []) else Inl ItemOverflow)"
| "copy_segment (x # next) c item =
     (if x \<noteq> CHR ''.'' then
        (if c < item_size then copy_segment next (Suc c) (item @ [x]) else Inl ItemOverflow)
      else
        (if c < item_size then Inr (item, x # next) else Inl ItemOverflow))"

text \<open>
  The walk. On entry the value to enumerate is on top of the engine's value stack
  (argument \<open>v\<close>); inside the loop the stack is \<^verbatim>\<open>[ ... obj enum key ]\<close>, so
  index \<^verbatim>\<open>-3\<close> of \<^verbatim>\<open>duk_get_prop_string\<close> is the object being enumerated
  (argument \<open>a\<close> of \<open>enum_loop\<close>). The three branches are those of the source, in
  its order: a dot that ends the string, the end of the string, and a dot with more
  text behind it. The source's third parameter \<^verbatim>\<open>data\<close> is passed on and never
  used; the model leaves it out.
\<close>

function autocompleteSubstep ::
    "duk_context \<Rightarrow> jsval \<Rightarrow> string \<Rightarrow> ConsolePlugin \<Rightarrow> error + (duk_context \<times> ConsolePlugin)"
  and enum_loop ::
    "duk_context \<Rightarrow> nat \<Rightarrow> string \<Rightarrow> string \<Rightarrow> string list \<Rightarrow> ConsolePlugin
       \<Rightarrow> error + (duk_context \<times> ConsolePlugin)"
where
  "autocompleteSubstep ctx v str that =
     (case copy_segment str 0 [] of
        Inl e \<Rightarrow> Inl e
      | Inr (item, next) \<Rightarrow>
          (case duk_enum ctx v of
             Inl e \<Rightarrow> Inl e
           | Inr (a, names) \<Rightarrow> enum_loop ctx a item next names that))"
| "enum_loop ctx a item next [] that = Inr (ctx, that)"
| "enum_loop ctx a item next (name # names) that =
     (if startsWith name item then
        (if next = ''.'' then
           (case duk_get_prop_string ctx a name of
              (v, ctx1) \<Rightarrow>
                (case autocompleteSubstep ctx1 v [] that of
                   Inl e \<Rightarrow> Inl e
                 | Inr (ctx2, that2) \<Rightarrow> enum_loop ctx2 a item next names that2))
         else if next = [] then
           enum_loop ctx a item next names
             (that\<lparr>autocomplete := autocomplete that @ [name]\<rparr>)
         else
           (case duk_get_prop_string ctx a name of
              (v, ctx1) \<Rightarrow>
                (case autocompleteSubstep ctx1 v (tl next) that of
                   Inl e \<Rightarrow> Inl e
                 | Inr (ctx2, that2) \<Rightarrow> enum_loop ctx2 a item next names that2)))
      else enum_loop ctx a item next names that)"
  by pat_completeness auto

text \<open>
  The recursion ends because the string gets shorter: every recursive call of the walk
  is on the empty string or on the text behind a dot. The object graph plays no part in
  the argument.
\<close>

termination
proof (relation "measures
    [\<lambda>x. case x of Inl (ctx, v, str, that) \<Rightarrow> length str
              | Inr (ctx, a, item, next, names, that) \<Rightarrow> length next,
     \<lambda>x. case x of Inl _ \<Rightarrow> Suc 0 | Inr _ \<Rightarrow> 0,
     \<lambda>x. case x of Inl _ \<Rightarrow> 0
              | Inr (ctx, a, item, next, names, that) \<Rightarrow> length names]", goal_cases)
  case 1
  show ?case by simp
next
  case (2 ctx v str plugin r item rest r' a names)
  have "copy_segment s c i = Inr (it, nx) \<Longrightarrow> length nx \<le> length s" for s c i it nx
    by (induction s c i rule: copy_segment.induct) (auto split: if_splits)
  from this [of str 0 "[]" item rest] 2 show ?case by auto
qed auto

declare autocompleteSubstep.simps [simp del]


subsection \<open>The recursion depth of the walk\<close>

text \<open>
  The same walk with a bound on the depth of the recursion: \<open>d\<close> is the number of
  nested activations of \<^verbatim>\<open>autocompleteSubstep\<close> that are still allowed, and
  \<open>None\<close> says that the walk would need more of them.
\<close>

fun substep_bounded ::
    "nat \<Rightarrow> duk_context \<Rightarrow> jsval \<Rightarrow> string \<Rightarrow> ConsolePlugin
       \<Rightarrow> (error + (duk_context \<times> ConsolePlugin)) option"
  and loop_bounded ::
    "nat \<Rightarrow> duk_context \<Rightarrow> nat \<Rightarrow> string \<Rightarrow> string \<Rightarrow> string list \<Rightarrow> ConsolePlugin
       \<Rightarrow> (error + (duk_context \<times> ConsolePlugin)) option"
where
  "substep_bounded 0 ctx v str that = None"
| "substep_bounded (Suc d) ctx v str that =
     (case copy_segment str 0 [] of
        Inl e \<Rightarrow> Some (Inl e)
      | Inr (item, next) \<Rightarrow>
          (case duk_enum ctx v of
             Inl e \<Rightarrow> Some (Inl e)
           | Inr (a, names) \<Rightarrow> loop_bounded d ctx a item next names that))"
| "loop_bounded d ctx a item next [] that = Some (Inr (ctx, that))"
| "loop_bounded d ctx a item next (name # names) that =
     (if startsWith name item then
        (if next = ''.'' then
           (case duk_get_prop_string ctx a name of
              (v, ctx1) \<Rightarrow>
                (case substep_bounded d ctx1 v [] that of
                   None \<Rightarrow> None
                 | Some (Inl e) \<Rightarrow> Some (Inl e)
                 | Some (Inr (ctx2, that2)) \<Rightarrow> loop_bounded d ctx2 a item next names that2))
         else if next = [] then
           loop_bounded d ctx a item next names
             (that\<lparr>autocomplete := autocomplete that @ [name]\<rparr>)
         else
           (case duk_get_prop_string ctx a name of
              (v, ctx1) \<Rightarrow>
                (case substep_bounded d ctx1 v (tl next) that of
                   None \<Rightarrow> None
                 | Some (Inl e) \<Rightarrow> Some (Inl e)
                 | Some (Inr (ctx2, that2)) \<Rightarrow> loop_bounded d ctx2 a item next names that2)))
      else loop_bounded d ctx a item next names that)"


subsection \<open>\<^verbatim>\<open>autocompleteCallback\<close>\<close>

text \<open>
  What the text widget hands to the callback: the event, the text of the buffer and the
  cursor position (a byte offset into the text).
\<close>

datatype ImGuiInputTextFlags =
  ImGuiInputTextFlags_CallbackCompletion | ImGuiInputTextFlags_CallbackAlways

record ImGuiTextEditCallbackData =
  EventFlag :: ImGuiInputTextFlags
  Buf :: string
  CursorPos :: int

text \<open>
  The ranges of \<^verbatim>\<open>isWordChar\<close> lie below 128, where the order of
  \<^verbatim>\<open>char\<close> values is the order of bytes whether \<^verbatim>\<open>char\<close> is signed or not.
\<close>

definition isWordChar :: "char \<Rightarrow> bool" where
  "isWordChar c =
     ((CHR ''a'' \<le> c \<and> c \<le> CHR ''z'') \<or> (CHR ''A'' \<le> c \<and> c \<le> CHR ''Z'')
      \<or> (CHR ''0'' \<le> c \<and> c \<le> CHR ''9'') \<or> c = CHR ''_'')"

text \<open>
  A read of \<^verbatim>\<open>data->Buf[i]\<close>. The text occupies the indices from 0 up to its
  length; a read at any other index has no known value.
\<close>

definition buf_read :: "string \<Rightarrow> int \<Rightarrow> char option" where
  "buf_read buf i = (if 0 \<le> i \<and> i < int (length buf) then Some (buf ! nat i) else None)"

text \<open>
  The backward scan for the start of the word, used twice in the callback with two
  different tests on the character. The source reads \<^verbatim>\<open>Buf[start_word - 1]\<close> into
  \<^verbatim>\<open>c\<close> once before the loop and once more at the end of every round, and tests
  \<^verbatim>\<open>start_word > 0\<close> before it looks at \<^verbatim>\<open>c\<close>. The model keeps the order
  and records the index of every read in \<open>reads\<close>. A byte read outside the text is
  \<open>None\<close> and fails the test on the character.
\<close>

function scan_back ::
    "(char \<Rightarrow> bool) \<Rightarrow> string \<Rightarrow> int \<Rightarrow> char option \<Rightarrow> int list \<Rightarrow> int \<times> int list" where
  "scan_back ok buf start_word c reads =
     (if start_word > 0 \<and> (case c of Some ch \<Rightarrow> ok ch | None \<Rightarrow> False) then
        scan_back ok buf (start_word - 1) (buf_read buf (start_word - 1 - 1))
          (reads @ [start_word - 1 - 1])
      else (start_word, reads))"
  by pat_completeness auto
termination
  by (relation "measure (\<lambda>(ok, buf, start_word, c, reads). nat start_word)") auto

declare scan_back.simps [simp del]

definition word_start :: "(char \<Rightarrow> bool) \<Rightarrow> string \<Rightarrow> int \<Rightarrow> int \<times> int list" where
  "word_start ok buf cursor =
     scan_back ok buf cursor (buf_read buf (cursor - 1)) [cursor - 1]"

text \<open>
  Modelled from the spec: \<^verbatim>\<open>copyNString\<close> and \<^verbatim>\<open>compareString\<close> of the
  host engine and \<^verbatim>\<open>qsort\<close> of the C library are called by the callback and are
  not part of the plugin's source. The spec has the candidates sorted lexicographically
  by byte-wise string comparison.
  \<^item> \<^verbatim>\<open>copyNString(dest, length, source, source_len)\<close> copies bytes of the
    source until the source ends, \<^verbatim>\<open>length - 1\<close> bytes are copied or
    \<^verbatim>\<open>source_len\<close> has counted down to zero, and terminates the copy.
  \<^item> \<^verbatim>\<open>compareString\<close> is the C library's comparison of two strings: the
    bytes are compared as unsigned values, the first difference decides, and a string
    that ends first is the smaller one.
  \<^item> \<^verbatim>\<open>qsort\<close> sorts the array in place by the comparison function it is
    given; the model sorts by insertion.
\<close>

definition copyNString :: "nat \<Rightarrow> string \<Rightarrow> int \<Rightarrow> string" where
  "copyNString len source source_len =
     take (if source_len < 0 then len - 1 else min (len - 1) (nat source_len)) source"

fun compareString :: "string \<Rightarrow> string \<Rightarrow> int" where
  "compareString [] [] = 0"
| "compareString [] (r # rhs) = - 1"
| "compareString (l # lhs) [] = 1"
| "compareString (l # lhs) (r # rhs) =
     (if l = r then compareString lhs rhs else int (of_char l) - int (of_char r))"

fun qsort_insert :: "('a \<Rightarrow> 'a \<Rightarrow> int) \<Rightarrow> 'a \<Rightarrow> 'a list \<Rightarrow> 'a list" where
  "qsort_insert cmp x [] = [x]"
| "qsort_insert cmp x (y # ys) =
     (if cmp x y \<le> 0 then x # y # ys else y # qsort_insert cmp x ys)"

definition qsort :: "('a \<Rightarrow> 'a \<Rightarrow> int) \<Rightarrow> 'a list \<Rightarrow> 'a list" where
  "qsort cmp xs = foldr (qsort_insert cmp) xs []"

text \<open>
  Modelled from the spec: \<^verbatim>\<open>InsertChars(pos, text)\<close> belongs to the host's text
  widget and is not part of the plugin's source; the spec has the chosen candidate
  spliced into the buffer at the word boundary. It puts the text into the buffer at
  \<open>pos\<close> and moves a cursor that stands at or behind \<open>pos\<close>.
\<close>

definition InsertChars ::
    "ImGuiTextEditCallbackData \<Rightarrow> int \<Rightarrow> string \<Rightarrow> ImGuiTextEditCallbackData" where
  "InsertChars data pos new_text =
     data\<lparr>Buf := take (nat pos) (Buf data) @ new_text @ drop (nat pos) (Buf data),
           CursorPos := (if pos \<le> CursorPos data then CursorPos data + int (length new_text)
                         else CursorPos data)\<rparr>"

text \<open>
  The callback. On a completion event it finds the start of the dotted word before the
  cursor, copies the word into \<^verbatim>\<open>char tmp[128]\<close>, empties the candidate list, walks
  from the global object, and sorts the list when it is not empty. On any other event
  it inserts a pending \<^verbatim>\<open>insert_value\<close>, less the part of the word that is already
  typed: the text handed to \<^verbatim>\<open>InsertChars\<close> starts at the pointer
  \<^verbatim>\<open>insert_value + CursorPos - start_word\<close>. The source does not compare the offset
  with the length of the string; an offset behind the terminating NUL (or before the
  string) makes \<^verbatim>\<open>InsertChars\<close> read outside the string, which is the error
  \<open>InsertValueOverrun\<close>.
\<close>

definition autocompleteCallback ::
    "duk_context \<Rightarrow> ImGuiTextEditCallbackData \<Rightarrow> ConsolePlugin
       \<Rightarrow> error + (duk_context \<times> ImGuiTextEditCallbackData \<times> ConsolePlugin)" where
  "autocompleteCallback ctx data that =
     (if EventFlag data = ImGuiInputTextFlags_CallbackCompletion then
        (let start_word =
               fst (word_start (\<lambda>c. isWordChar c \<or> c = CHR ''.'') (Buf data) (CursorPos data));
             tmp = copyNString 128 (drop (nat start_word) (Buf data))
                     (CursorPos data - start_word)
         in case autocompleteSubstep ctx (Object (global_object ctx)) tmp
                   (that\<lparr>autocomplete := []\<rparr>) of
              Inl e \<Rightarrow> Inl e
            | Inr (ctx', that') \<Rightarrow>
                (if autocomplete that' \<noteq> [] then
                   Inr (ctx', data,
                        that'\<lparr>open_autocomplete := True,
                              autocomplete := qsort compareString (autocomplete that')\<rparr>)
                 else Inr (ctx', data, that')))
      else
        (case insert_value that of
           Some v \<Rightarrow>
             (let start_word = fst (word_start isWordChar (Buf data) (CursorPos data));
                  offset = CursorPos data - start_word
              in if offset < 0 \<or> int (length v) < offset then Inl InsertValueOverrun
                 else Inr (ctx,
                           InsertChars data (CursorPos data) (drop (nat offset) v),
                           that\<lparr>insert_value := None\<rparr>))
         | None \<Rightarrow> Inr (ctx, data, that)))"


subsection \<open>Segments, paths and candidates\<close>

text \<open>
  The notions the statements below are written in. \<open>split_dots\<close> cuts a query at its
  dots: the last segment is the trailing segment, the others are the segments before
  it. \<open>names_of\<close> are the property names of a node and \<open>value_of\<close> is the value a
  property read gives.
\<close>

fun split_dots :: "string \<Rightarrow> string list" where
  "split_dots [] = [[]]"
| "split_dots (c # cs) =
     (if c = CHR ''.'' then [] # split_dots cs
      else (case split_dots cs of [] \<Rightarrow> [[c]] | seg # segs \<Rightarrow> (c # seg) # segs))"

definition names_of :: "(nat \<Rightarrow> obj) \<Rightarrow> jsval \<Rightarrow> string list" where
  "names_of h v = (case v of Object a \<Rightarrow> map fst (h a) | _ \<Rightarrow> [])"

definition property_value :: "property \<Rightarrow> jsval" where
  "property_value p = (case p of Data v \<Rightarrow> v | Accessor v \<Rightarrow> v)"

definition value_of :: "(nat \<Rightarrow> obj) \<Rightarrow> jsval \<Rightarrow> string \<Rightarrow> jsval" where
  "value_of h v name =
     (case v of
        Object a \<Rightarrow> (case map_of (h a) name of None \<Rightarrow> Undefined | Some p \<Rightarrow> property_value p)
      | _ \<Rightarrow> Undefined)"

text \<open>
  \<open>prefix_path h v segs ks\<close>: the names \<open>ks\<close> lead from the node \<open>v\<close> downwards,
  one name for each segment, and each name is a property name of the node it is read
  from and begins with its segment. \<open>exact_path\<close> is the same with each name equal to
  its segment. \<open>follow\<close> is the node at the end of the names.
\<close>

fun prefix_path :: "(nat \<Rightarrow> obj) \<Rightarrow> jsval \<Rightarrow> string list \<Rightarrow> string list \<Rightarrow> bool" where
  "prefix_path h v [] [] = True"
| "prefix_path h v (seg # segs) (k # ks) =
     (k \<in> set (names_of h v) \<and> startsWith k seg \<and> prefix_path h (value_of h v k) segs ks)"
| "prefix_path h v [] (k # ks) = False"
| "prefix_path h v (seg # segs) [] = False"

fun exact_path :: "(nat \<Rightarrow> obj) \<Rightarrow> jsval \<Rightarrow> string list \<Rightarrow> string list \<Rightarrow> bool" where
  "exact_path h v [] [] = True"
| "exact_path h v (seg # segs) (k # ks) =
     (k \<in> set (names_of h v) \<and> k = seg \<and> exact_path h (value_of h v k) segs ks)"
| "exact_path h v [] (k # ks) = False"
| "exact_path h v (seg # segs) [] = False"

fun follow :: "(nat \<Rightarrow> obj) \<Rightarrow> jsval \<Rightarrow> string list \<Rightarrow> jsval" where
  "follow h v [] = v"
| "follow h v (k # ks) = follow h (value_of h v k) ks"

text \<open>
  The candidates of a list of segments at a node, written as a comprehension: at the
  last segment the names of the node that begin with it, before that the candidates of
  the rest at the value of every property whose name begins with the segment.
\<close>

fun candidates :: "(nat \<Rightarrow> obj) \<Rightarrow> jsval \<Rightarrow> string list \<Rightarrow> string list" where
  "candidates h v [] = []"
| "candidates h v [p] = filter (\<lambda>name. startsWith name p) (names_of h v)"
| "candidates h v (seg # s # segs) =
     concat (map (\<lambda>name. candidates h (value_of h v name) (s # segs))
                 (filter (\<lambda>name. startsWith name seg) (names_of h v)))"


text \<open>
  The getters a resolution runs, written as a comprehension. \<open>accessor_reads\<close> is
  the run of one property read: the getter of the property when it is an accessor,
  nothing when it is a data property. \<open>getter_runs\<close> are the runs of the reads of a
  list of segments at a node, in the order of the walk: at every segment before the
  last, for every property whose name begins with the segment, the read of that
  property and then the runs of the rest at its value.
\<close>

definition accessor_reads :: "(nat \<Rightarrow> obj) \<Rightarrow> jsval \<Rightarrow> string \<Rightarrow> (nat \<times> string) list" where
  "accessor_reads h v name =
     (case v of
        Object a \<Rightarrow>
          (case map_of (h a) name of Some (Accessor w) \<Rightarrow> [(a, name)] | _ \<Rightarrow> [])
      | _ \<Rightarrow> [])"

fun getter_runs :: "(nat \<Rightarrow> obj) \<Rightarrow> jsval \<Rightarrow> string list \<Rightarrow> (nat \<times> string) list" where
  "getter_runs h v [] = []"
| "getter_runs h v [p] = []"
| "getter_runs h v (seg # s # segs) =
     concat (map (\<lambda>name. accessor_reads h v name @ getter_runs h (value_of h v name) (s # segs))
                 (filter (\<lambda>name. startsWith name seg) (names_of h v)))"

subsection \<open>Example namespaces\<close>

text \<open>
  An engine with the given heap, the global object at address 0 and no getter run so
  far; and a plugin with an empty candidate list.
\<close>

definition engine :: "(nat \<Rightarrow> obj) \<Rightarrow> duk_context" where
  "engine h = \<lparr>heap = h, global_object = 0, getter_calls = []\<rparr>"

definition new_plugin :: ConsolePlugin where
  "new_plugin = \<lparr>autocomplete = [], open_autocomplete = False, insert_value = None\<rparr>"

text \<open>The namespace \<^verbatim>\<open>{a: {b: 1, bc: 2}, x: 3}\<close>.\<close>

definition ns_spec :: "nat \<Rightarrow> obj" where
  "ns_spec n =
     (if n = 0 then [(''a'', Data (Object 1)), (''x'', Data (Number 3))]
      else if n = 1 then [(''b'', Data (Number 1)), (''bc'', Data (Number 2))]
      else [])"

text \<open>The namespace \<^verbatim>\<open>{ab: {c: 1}}\<close>: no property is named \<^verbatim>\<open>a\<close>.\<close>

definition ns_ab :: "nat \<Rightarrow> obj" where
  "ns_ab n =
     (if n = 0 then [(''ab'', Data (Object 1))]
      else if n = 1 then [(''c'', Data (Number 1))]
      else [])"

text \<open>The namespace \<^verbatim>\<open>{zed: {b: 1}}\<close>: no property is named \<^verbatim>\<open>z\<close>.\<close>

definition ns_zed :: "nat \<Rightarrow> obj" where
  "ns_zed n =
     (if n = 0 then [(''zed'', Data (Object 1))]
      else if n = 1 then [(''b'', Data (Number 1))]
      else [])"

text \<open>
  The namespace \<^verbatim>\<open>{a: A}\<close> with \<^verbatim>\<open>A = {self: A, b: 1}\<close>: the object
  \<^verbatim>\<open>a\<close> holds itself.
\<close>

definition ns_self :: "nat \<Rightarrow> obj" where
  "ns_self n =
     (if n = 0 then [(''a'', Data (Object 1))]
      else if n = 1 then [(''self'', Data (Object 1)), (''b'', Data (Number 1))]
      else [])"

text \<open>
  The namespace \<^verbatim>\<open>{get a() { return {b: 1} }}\<close>: the property \<^verbatim>\<open>a\<close> is an
  accessor.
\<close>

definition ns_getter :: "nat \<Rightarrow> obj" where
  "ns_getter n =
     (if n = 0 then [(''a'', Accessor (Object 1))]
      else if n = 1 then [(''b'', Data (Number 1))]
      else [])"

text \<open>The namespace \<^verbatim>\<open>{a: {b: 1}}\<close>.\<close>

definition ns_nested :: "nat \<Rightarrow> obj" where
  "ns_nested n =
     (if n = 0 then [(''a'', Data (Object 1))]
      else if n = 1 then [(''b'', Data (Number 1))]
      else [])"

text \<open>The namespace \<^verbatim>\<open>{bc: 1, b: 2}\<close>, enumerated in this order.\<close>

definition ns_bc :: "nat \<Rightarrow> obj" where
  "ns_bc n = (if n = 0 then [(''bc'', Data (Number 1)), (''b'', Data (Number 2))] else [])"

text \<open>The namespace \<^verbatim>\<open>{a: {b: {bb: 1}}}\<close>.\<close>

definition ns_deep :: "nat \<Rightarrow> obj" where
  "ns_deep n =
     (if n = 0 then [(''a'', Data (Object 1))]
      else if n = 1 then [(''b'', Data (Object 2))]
      else if n = 2 then [(''bb'', Data (Number 1))]
      else [])"

text \<open>
  A namespace of one object that holds itself under each of the given names.
\<close>

definition ns_loop :: "string list \<Rightarrow> nat \<Rightarrow> obj" where
  "ns_loop ks n = map (\<lambda>k. (k, Data (Object 0))) ks"

section \<open>Properties\<close>

subsection \<open>Auxiliary facts\<close>

lemma copy_segment_eq:
  "copy_segment s c i =
     (if c + length (takeWhile (\<lambda>x. x \<noteq> CHR ''.'') s) < item_size
      then Inr (i @ takeWhile (\<lambda>x. x \<noteq> CHR ''.'') s, dropWhile (\<lambda>x. x \<noteq> CHR ''.'') s)
      else Inl ItemOverflow)"
  by (induction s c i rule: copy_segment.induct) auto

lemma split_dots_not_Nil: "split_dots s \<noteq> []"
  by (induction s) (auto split: list.splits)

lemma split_dots_unfold:
  "split_dots s = takeWhile (\<lambda>x. x \<noteq> CHR ''.'') s #
     (case dropWhile (\<lambda>x. x \<noteq> CHR ''.'') s of [] \<Rightarrow> [] | d # rest \<Rightarrow> split_dots rest)"
  by (induction s) (auto split: list.splits simp: split_dots_not_Nil)

lemma startsWith_prefix: "startsWith s p = prefix p s"
  by (induction s p rule: startsWith.induct) auto

lemma dropWhile_dot:
  "dropWhile (\<lambda>x. x \<noteq> CHR ''.'') s = [] \<or> hd (dropWhile (\<lambda>x. x \<noteq> CHR ''.'') s) = CHR ''.''"
  using hd_dropWhile [of "\<lambda>x. x \<noteq> CHR ''.''" s] by auto

lemma get_prop_value:
  "duk_get_prop_string ctx a name = (v, ctx1) \<Longrightarrow>
     v = value_of (heap ctx) (Object a) name \<and> heap ctx1 = heap ctx
     \<and> global_object ctx1 = global_object ctx"
  by (auto simp: duk_get_prop_string_def value_of_def property_value_def
           split: option.splits property.splits)

text \<open>
  The walk against the comprehension: a walk that returns has added exactly the
  candidates of the query's segments, in their order, and has left the heap alone.
\<close>

lemma walk_candidates:
  "autocompleteSubstep ctx v str that = Inr (ctx', that') \<Longrightarrow>
     heap ctx' = heap ctx \<and> global_object ctx' = global_object ctx \<and>
     that' = that\<lparr>autocomplete := autocomplete that @ candidates (heap ctx) v (split_dots str)\<rparr>"
  "enum_loop ctx a item rest names that = Inr (ctx', that') \<Longrightarrow>
     rest = [] \<or> hd rest = CHR ''.'' \<Longrightarrow>
     heap ctx' = heap ctx \<and> global_object ctx' = global_object ctx \<and>
     that' = that\<lparr>autocomplete := autocomplete that @
        (if rest = [] then filter (\<lambda>name. startsWith name item) names
         else concat (map (\<lambda>name. candidates (heap ctx) (value_of (heap ctx) (Object a) name) (split_dots (tl rest)))
                 (filter (\<lambda>name. startsWith name item) names)))\<rparr>"
proof (induction ctx v str that and ctx a item rest names that arbitrary: ctx' that' and ctx' that'
    rule: autocompleteSubstep_enum_loop.induct)
  case (1 ctx v str that)
  let ?P = "\<lambda>x. x \<noteq> CHR ''.''"
  from "1.prems" obtain a where v: "v = Object a"
    and cs: "copy_segment str 0 [] = Inr (takeWhile ?P str, dropWhile ?P str)"
    and en: "duk_enum ctx v = Inr (a, map fst (heap ctx a))"
    and loop: "enum_loop ctx a (takeWhile ?P str) (dropWhile ?P str) (map fst (heap ctx a)) that
                 = Inr (ctx', that')"
    by (auto simp: autocompleteSubstep.simps copy_segment_eq duk_enum_def
             split: if_splits jsval.splits)
  note IH = "1.IH" [OF cs refl en refl loop dropWhile_dot]
  show ?case
  proof (cases "dropWhile ?P str")
    case Nil
    have "split_dots str = [takeWhile ?P str]"
      by (subst split_dots_unfold) (simp only: Nil list.case)
    with Nil IH show ?thesis
      by (simp add: v names_of_def del: dropWhile_eq_Nil_conv)
  next
    case (Cons d r)
    obtain s segs where sd: "split_dots r = s # segs"
      using split_dots_not_Nil [of r] by (cases "split_dots r") auto
    have "split_dots str = takeWhile ?P str # s # segs"
      by (subst split_dots_unfold) (simp only: Cons list.case sd)
    with Cons IH show ?thesis
      by (simp add: v names_of_def sd)
  qed
next
  case (2 ctx a item rest that)
  then show ?case by simp
next
  case (3 ctx a item rest name names that)
  show ?case
  proof (cases "startsWith name item")
    case False
    from "3.prems"(1) False
    have loop: "enum_loop ctx a item rest names that = Inr (ctx', that')" by simp
    from "3.IH"(6) [OF False loop "3.prems"(2)] False show ?thesis by simp
  next
    case True
    show ?thesis
    proof (cases "rest = []")
      case rn: True
      then have nd: "rest \<noteq> ''.''" by simp
      from "3.prems"(1) True rn
      have loop: "enum_loop ctx a item rest names
                    (that\<lparr>autocomplete := autocomplete that @ [name]\<rparr>) = Inr (ctx', that')"
        by simp
      from "3.IH"(3) [OF True nd rn loop "3.prems"(2)] True rn show ?thesis by simp
    next
      case rn: False
      obtain v ctx1 where gp: "duk_get_prop_string ctx a name = (v, ctx1)"
        by (cases "duk_get_prop_string ctx a name")
      note gv = get_prop_value [OF gp]
      show ?thesis
      proof (cases "rest = ''.''")
        case dot: True
        from "3.prems" True dot gp obtain ctx2 that2
          where sub: "autocompleteSubstep ctx1 v [] that = Inr (ctx2, that2)"
            and loop: "enum_loop ctx2 a item rest names that2 = Inr (ctx', that')"
          by (auto split: sum.splits)
        note IH1 = "3.IH"(1) [OF True dot gp [symmetric] sub]
        note IH2 = "3.IH"(2) [OF True dot gp [symmetric] sub refl loop "3.prems"(2)]
        from IH1 IH2 gv True dot show ?thesis by simp
      next
        case dot: False
        from "3.prems" True dot rn gp obtain ctx2 that2
          where sub: "autocompleteSubstep ctx1 v (tl rest) that = Inr (ctx2, that2)"
            and loop: "enum_loop ctx2 a item rest names that2 = Inr (ctx', that')"
          by (auto split: sum.splits)
        note IH1 = "3.IH"(4) [OF True dot rn gp [symmetric] sub]
        note IH2 = "3.IH"(5) [OF True dot rn gp [symmetric] sub refl loop "3.prems"(2)]
        from IH1 IH2 gv True dot rn show ?thesis by simp
      qed
    qed
  qed
qed

lemma copy_segment_start:
  "copy_segment s 0 [] =
     (if length (takeWhile (\<lambda>x. x \<noteq> CHR ''.'') s) < 128
      then Inr (takeWhile (\<lambda>x. x \<noteq> CHR ''.'') s, dropWhile (\<lambda>x. x \<noteq> CHR ''.'') s)
      else Inl ItemOverflow)"
  by (simp add: copy_segment_eq item_size_def)


subsection \<open>The example of the specification\<close>

text \<open>
  Claim C8. In the namespace \<^verbatim>\<open>{a: {b: 1, bc: 2}, x: 3}\<close> the query \<^verbatim>\<open>a.b\<close>
  resolves to exactly \<^verbatim>\<open>["b", "bc"]\<close>, and so does the query \<^verbatim>\<open>a.\<close> with its
  empty trailing segment. The first two equations are the walk from the root, the last
  two the whole callback with the query in the text buffer and the cursor behind it.
\<close>

theorem C8_spec_example:
  "autocompleteSubstep (engine ns_spec) (Object 0) ''a.b'' new_plugin
     = Inr (engine ns_spec, new_plugin\<lparr>autocomplete := [''b'', ''bc'']\<rparr>)
   \<and> autocompleteSubstep (engine ns_spec) (Object 0) ''a.'' new_plugin
     = Inr (engine ns_spec, new_plugin\<lparr>autocomplete := [''b'', ''bc'']\<rparr>)
   \<and> autocompleteCallback (engine ns_spec)
        \<lparr>EventFlag = ImGuiInputTextFlags_CallbackCompletion, Buf = ''a.b'', CursorPos = 3\<rparr> new_plugin
     = Inr (engine ns_spec,
            \<lparr>EventFlag = ImGuiInputTextFlags_CallbackCompletion, Buf = ''a.b'', CursorPos = 3\<rparr>,
            new_plugin\<lparr>autocomplete := [''b'', ''bc''], open_autocomplete := True\<rparr>)
   \<and> autocompleteCallback (engine ns_spec)
        \<lparr>EventFlag = ImGuiInputTextFlags_CallbackCompletion, Buf = ''a.'', CursorPos = 2\<rparr> new_plugin
     = Inr (engine ns_spec,
            \<lparr>EventFlag = ImGuiInputTextFlags_CallbackCompletion, Buf = ''a.'', CursorPos = 2\<rparr>,
            new_plugin\<lparr>autocomplete := [''b'', ''bc''], open_autocomplete := True\<rparr>)"
proof -
  have walk1: "autocompleteSubstep (engine ns_spec) (Object 0) ''a.b'' new_plugin
     = Inr (engine ns_spec, new_plugin\<lparr>autocomplete := [''b'', ''bc'']\<rparr>)"
    by (simp add: autocompleteSubstep.simps copy_segment_start duk_enum_def duk_get_prop_string_def engine_def ns_spec_def
          new_plugin_def)
  have walk2: "autocompleteSubstep (engine ns_spec) (Object 0) ''a.'' new_plugin
     = Inr (engine ns_spec, new_plugin\<lparr>autocomplete := [''b'', ''bc'']\<rparr>)"
    by (simp add: autocompleteSubstep.simps copy_segment_start duk_enum_def duk_get_prop_string_def engine_def ns_spec_def
          new_plugin_def)
  have scan1: "word_start (\<lambda>c. isWordChar c \<or> c = CHR ''.'') ''a.b'' 3 = (0, [2, 1, 0, -1])"
    by (simp add: word_start_def scan_back.simps buf_read_def isWordChar_def less_eq_char_def)
  have scan2: "word_start (\<lambda>c. isWordChar c \<or> c = CHR ''.'') ''a.'' 2 = (0, [1, 0, -1])"
    by (simp add: word_start_def scan_back.simps buf_read_def isWordChar_def less_eq_char_def)
  have cb1: "autocompleteCallback (engine ns_spec)
        \<lparr>EventFlag = ImGuiInputTextFlags_CallbackCompletion, Buf = ''a.b'', CursorPos = 3\<rparr> new_plugin
     = Inr (engine ns_spec,
            \<lparr>EventFlag = ImGuiInputTextFlags_CallbackCompletion, Buf = ''a.b'', CursorPos = 3\<rparr>,
            new_plugin\<lparr>autocomplete := [''b'', ''bc''], open_autocomplete := True\<rparr>)"
    by (simp add: autocompleteCallback_def scan1 copyNString_def autocompleteSubstep.simps
          copy_segment_start duk_enum_def duk_get_prop_string_def engine_def ns_spec_def new_plugin_def
          qsort_def)
  have cb2: "autocompleteCallback (engine ns_spec)
        \<lparr>EventFlag = ImGuiInputTextFlags_CallbackCompletion, Buf = ''a.'', CursorPos = 2\<rparr> new_plugin
     = Inr (engine ns_spec,
            \<lparr>EventFlag = ImGuiInputTextFlags_CallbackCompletion, Buf = ''a.'', CursorPos = 2\<rparr>,
            new_plugin\<lparr>autocomplete := [''b'', ''bc''], open_autocomplete := True\<rparr>)"
    by (simp add: autocompleteCallback_def scan2 copyNString_def autocompleteSubstep.simps
          copy_segment_start duk_enum_def duk_get_prop_string_def engine_def ns_spec_def new_plugin_def
          qsort_def)
  from walk1 walk2 cb1 cb2 show ?thesis by (intro conjI)
qed

subsection \<open>Termination\<close>

text \<open>
  The walk with a bound on its recursion depth agrees with the walk as soon as the
  bound exceeds the number of dots of the query: no namespace makes the walk nest
  deeper than the query has segments.
\<close>

lemma count_dots_dropWhile:
  "count_list (dropWhile (\<lambda>x. x \<noteq> CHR ''.'') s) (CHR ''.'') = count_list s (CHR ''.'')"
  by (induction s) auto

lemma count_dots_tl:
  "rest \<noteq> [] \<Longrightarrow> hd rest = CHR ''.'' \<Longrightarrow>
     Suc (count_list (tl rest) (CHR ''.'')) = count_list rest (CHR ''.'')"
  by (cases rest) auto

lemma bounded_walk:
  "count_list str (CHR ''.'') < d \<Longrightarrow>
     substep_bounded d ctx v str that = Some (autocompleteSubstep ctx v str that)"
  "rest \<noteq> [] \<longrightarrow> hd rest = CHR ''.'' \<and> count_list rest (CHR ''.'') \<le> d \<Longrightarrow>
     loop_bounded d ctx a item rest names that = Some (enum_loop ctx a item rest names that)"
proof (induction ctx v str that and ctx a item rest names that arbitrary: d and d
    rule: autocompleteSubstep_enum_loop.induct)
  case (1 ctx v str that)
  let ?P = "\<lambda>x. x \<noteq> CHR ''.''"
  from "1.prems" obtain d' where d: "d = Suc d'" by (cases d) auto
  show ?case
  proof (cases "copy_segment str 0 []")
    case (Inl e)
    then show ?thesis by (simp add: d autocompleteSubstep.simps)
  next
    case (Inr p)
    then have cs: "copy_segment str 0 [] = Inr (takeWhile ?P str, dropWhile ?P str)"
      by (simp add: copy_segment_eq split: if_splits)
    show ?thesis
    proof (cases "duk_enum ctx v")
      case (Inl e)
      then show ?thesis by (simp add: d cs autocompleteSubstep.simps)
    next
      case (Inr q)
      obtain a names where q: "q = (a, names)" by (cases q)
      have inv: "dropWhile ?P str \<noteq> [] \<longrightarrow>
          hd (dropWhile ?P str) = CHR ''.'' \<and> count_list (dropWhile ?P str) (CHR ''.'') \<le> d'"
        using "1.prems" dropWhile_dot [of str]
        by (auto simp add: count_dots_dropWhile d simp del: dropWhile_eq_Nil_conv)
      from "1.IH" [OF cs refl Inr [unfolded q] refl inv]
      show ?thesis by (simp add: d cs Inr q autocompleteSubstep.simps)
    qed
  qed
next
  case (2 ctx a item rest that)
  show ?case by simp
next
  case (3 ctx a item rest name names that)
  show ?case
  proof (cases "startsWith name item")
    case False
    with "3.IH"(6) [OF False "3.prems"] show ?thesis by simp
  next
    case True
    show ?thesis
    proof (cases "rest = []")
      case rn: True
      then have nd: "rest \<noteq> ''.''" by simp
      from "3.IH"(3) [OF True nd rn "3.prems"] True rn show ?thesis by simp
    next
      case rn: False
      obtain v ctx1 where gp: "duk_get_prop_string ctx a name = (v, ctx1)"
        by (cases "duk_get_prop_string ctx a name")
      from rn "3.prems" have hd: "hd rest = CHR ''.''" and le: "count_list rest (CHR ''.'') \<le> d"
        by auto
      from count_dots_tl [OF rn hd] le have lt: "count_list (tl rest) (CHR ''.'') < d" by simp
      show ?thesis
      proof (cases "rest = ''.''")
        case dot: True
        with lt have lt0: "count_list [] (CHR ''.'') < d" by simp
        note IH1 = "3.IH"(1) [OF True dot gp [symmetric] lt0]
        show ?thesis
        proof (cases "autocompleteSubstep ctx1 v [] that")
          case (Inl e)
          with IH1 True dot gp show ?thesis by simp
        next
          case (Inr r)
          obtain ctx2 that2 where r: "r = (ctx2, that2)" by (cases r)
          from "3.IH"(2) [OF True dot gp [symmetric] Inr [unfolded r] refl "3.prems"]
            IH1 Inr r True dot gp
          show ?thesis by simp
        qed
      next
        case dot: False
        note IH1 = "3.IH"(4) [OF True dot rn gp [symmetric] lt]
        show ?thesis
        proof (cases "autocompleteSubstep ctx1 v (tl rest) that")
          case (Inl e)
          with IH1 True dot rn gp show ?thesis by simp
        next
          case (Inr r)
          obtain ctx2 that2 where r: "r = (ctx2, that2)" by (cases r)
          from "3.IH"(5) [OF True dot rn gp [symmetric] Inr [unfolded r] refl "3.prems"]
            IH1 Inr r True dot rn gp
          show ?thesis by simp
        qed
      qed
    qed
  qed
qed

text \<open>
  Claim C3. For every namespace graph, also one in which an object holds itself, the
  resolution of a query ends after a bounded number of steps: the recursion is never
  deeper than the number of dots of the query plus one, whatever the graph is, and each
  activation loops over the finite list of the names of one object. The witness is the
  query \<^verbatim>\<open>a.self.self.self.b\<close> in a namespace where \<^verbatim>\<open>a.self\<close> is \<^verbatim>\<open>a\<close>.
\<close>

theorem C3_walk_terminates:
  "count_list str (CHR ''.'') < d \<Longrightarrow>
     substep_bounded d ctx v str that = Some (autocompleteSubstep ctx v str that)"
proof -
  assume "count_list str (CHR ''.'') < d"
  then show ?thesis by (rule bounded_walk(1))
qed

theorem C3_walk_terminates_witness:
  "substep_bounded 5 (engine ns_self) (Object 0) ''a.self.self.self.b'' new_plugin
     = Some (Inr (engine ns_self, new_plugin\<lparr>autocomplete := [''b'']\<rparr>))"
proof -
  have "autocompleteSubstep (engine ns_self) (Object 0) ''a.self.self.self.b'' new_plugin
     = Inr (engine ns_self, new_plugin\<lparr>autocomplete := [''b'']\<rparr>)"
    by (simp add: autocompleteSubstep.simps copy_segment_start duk_enum_def
          duk_get_prop_string_def engine_def ns_self_def new_plugin_def)
  with C3_walk_terminates [of "''a.self.self.self.b''" 5 "engine ns_self" "Object 0" new_plugin]
  show ?thesis by simp
qed

subsection \<open>The local buffer of the walk\<close>

text \<open>
  A query whose segments are all shorter than the buffer never writes past its end,
  whatever the namespace is.
\<close>

lemma no_overflow:
  "\<forall>seg\<in>set (split_dots str). length seg < item_size \<Longrightarrow>
     autocompleteSubstep ctx v str that \<noteq> Inl ItemOverflow"
  "rest \<noteq> [] \<longrightarrow> hd rest = CHR ''.'' \<and> (\<forall>seg\<in>set (split_dots (tl rest)). length seg < item_size) \<Longrightarrow>
     enum_loop ctx a item rest names that \<noteq> Inl ItemOverflow"
proof (induction ctx v str that and ctx a item rest names that
    rule: autocompleteSubstep_enum_loop.induct)
  case (1 ctx v str that)
  let ?P = "\<lambda>x. x \<noteq> CHR ''.''"
  from "1.prems" have short: "length (takeWhile ?P str) < item_size"
    and tail: "\<forall>seg\<in>set (case dropWhile ?P str of [] \<Rightarrow> [] | d # r \<Rightarrow> split_dots r).
                 length seg < item_size"
    by (subst (asm) split_dots_unfold, simp)+
  from short have cs: "copy_segment str 0 [] = Inr (takeWhile ?P str, dropWhile ?P str)"
    by (simp add: copy_segment_eq)
  show ?case
  proof (cases "duk_enum ctx v")
    case (Inl e)
    then have "e = TypeError" by (auto simp: duk_enum_def split: jsval.splits)
    with Inl show ?thesis by (simp add: autocompleteSubstep.simps cs)
  next
    case (Inr q)
    obtain a names where q: "q = (a, names)" by (cases q)
    have inv: "dropWhile ?P str \<noteq> [] \<longrightarrow> hd (dropWhile ?P str) = CHR ''.'' \<and>
        (\<forall>seg\<in>set (split_dots (tl (dropWhile ?P str))). length seg < item_size)"
      using tail dropWhile_dot [of str] by (cases "dropWhile ?P str") auto
    from "1.IH" [OF cs refl Inr [unfolded q] refl inv]
    show ?thesis by (simp add: autocompleteSubstep.simps cs Inr q)
  qed
next
  case (2 ctx a item rest that)
  show ?case by simp
next
  case (3 ctx a item rest name names that)
  show ?case
  proof (cases "startsWith name item")
    case False
    with "3.IH"(6) [OF False "3.prems"] show ?thesis by simp
  next
    case True
    show ?thesis
    proof (cases "rest = []")
      case rn: True
      then have nd: "rest \<noteq> ''.''" by simp
      from "3.IH"(3) [OF True nd rn "3.prems"] True rn show ?thesis by simp
    next
      case rn: False
      obtain v ctx1 where gp: "duk_get_prop_string ctx a name = (v, ctx1)"
        by (cases "duk_get_prop_string ctx a name")
      from rn "3.prems" have segs: "\<forall>seg\<in>set (split_dots (tl rest)). length seg < item_size"
        by simp
      show ?thesis
      proof (cases "rest = ''.''")
        case dot: True
        with segs have segs0: "\<forall>seg\<in>set (split_dots []). length seg < item_size" by simp
        note IH1 = "3.IH"(1) [OF True dot gp [symmetric] segs0]
        show ?thesis
        proof (cases "autocompleteSubstep ctx1 v [] that")
          case (Inl e)
          with IH1 True dot gp show ?thesis by simp
        next
          case (Inr r)
          obtain ctx2 that2 where r: "r = (ctx2, that2)" by (cases r)
          from "3.IH"(2) [OF True dot gp [symmetric] Inr [unfolded r] refl "3.prems"]
            Inr r True dot gp
          show ?thesis by simp
        qed
      next
        case dot: False
        note IH1 = "3.IH"(4) [OF True dot rn gp [symmetric] segs]
        show ?thesis
        proof (cases "autocompleteSubstep ctx1 v (tl rest) that")
          case (Inl e)
          with IH1 True dot rn gp show ?thesis by simp
        next
          case (Inr r)
          obtain ctx2 that2 where r: "r = (ctx2, that2)" by (cases r)
          from "3.IH"(5) [OF True dot rn gp [symmetric] Inr [unfolded r] refl "3.prems"]
            Inr r True dot rn gp
          show ?thesis by simp
        qed
      qed
    qed
  qed
qed

text \<open>
  Conversely, a segment of 128 bytes or more is reached, and overflows the buffer, in
  the namespace of one object that holds itself under every segment of the query.
\<close>

lemma ns_loop_value:
  "name \<in> set ks \<Longrightarrow>
     duk_get_prop_string (engine (ns_loop ks)) a name = (Object 0, engine (ns_loop ks))"
  by (simp add: duk_get_prop_string_def engine_def ns_loop_def map_of_map_restrict)

lemma loop_overflow:
  assumes rec: "\<And>that. autocompleteSubstep (engine (ns_loop ks)) (Object 0) (tl rest) that
                  = Inl ItemOverflow"
    and rest: "rest \<noteq> []"
  shows "set names \<subseteq> set ks \<Longrightarrow> \<exists>name\<in>set names. startsWith name item \<Longrightarrow>
     enum_loop (engine (ns_loop ks)) a item rest names that = Inl ItemOverflow"
proof (induction names arbitrary: that)
  case Nil
  then show ?case by simp
next
  case (Cons name names)
  show ?case
  proof (cases "startsWith name item")
    case True
    from Cons.prems(1) have "name \<in> set ks" by simp
    note gp = ns_loop_value [OF this, of a]
    show ?thesis
    proof (cases "rest = ''.''")
      case dot: True
      with rec [of that] have "autocompleteSubstep (engine (ns_loop ks)) (Object 0) [] that
          = Inl ItemOverflow" by simp
      with True dot gp show ?thesis by simp
    next
      case False
      with True rest gp rec [of that] show ?thesis by simp
    qed
  next
    case False
    with Cons.prems have "set names \<subseteq> set ks" "\<exists>name\<in>set names. startsWith name item"
      by auto
    from Cons.IH [OF this] False show ?thesis by simp
  qed
qed

lemma startsWith_refl: "startsWith s s"
  by (induction s) auto

lemma overflow_reached:
  "\<exists>seg\<in>set (split_dots str). item_size \<le> length seg \<Longrightarrow> set (split_dots str) \<subseteq> set ks \<Longrightarrow>
     autocompleteSubstep (engine (ns_loop ks)) (Object 0) str that = Inl ItemOverflow"
proof (induction "length str" arbitrary: str that rule: less_induct)
  case less
  let ?P = "\<lambda>x. x \<noteq> CHR ''.''"
  let ?item = "takeWhile ?P str"
  let ?rest = "dropWhile ?P str"
  show ?case
  proof (cases "length ?item < item_size")
    case False
    then show ?thesis by (simp add: autocompleteSubstep.simps copy_segment_eq)
  next
    case True
    then have cs: "copy_segment str 0 [] = Inr (?item, ?rest)"
      by (simp add: copy_segment_eq)
    have en: "duk_enum (engine (ns_loop ks)) (Object 0) = Inr (0, ks)"
      by (simp add: duk_enum_def engine_def ns_loop_def comp_def)
    have sd: "split_dots str = ?item # (case ?rest of [] \<Rightarrow> [] | d # r \<Rightarrow> split_dots r)"
      by (rule split_dots_unfold)
    from less.prems(2) have item: "?item \<in> set ks"
      unfolding sd by simp
    from less.prems(1) True have "\<exists>seg\<in>set (case ?rest of [] \<Rightarrow> [] | d # r \<Rightarrow> split_dots r).
        item_size \<le> length seg"
      unfolding sd by auto
    then obtain d r where rest: "?rest = d # r"
      and long: "\<exists>seg\<in>set (split_dots r). item_size \<le> length seg"
      by (cases ?rest) auto
    from less.prems(2) have sub: "set (split_dots r) \<subseteq> set ks"
      unfolding sd rest by simp
    have "length ?rest \<le> length str" by (rule length_dropWhile_le)
    with rest have shorter: "length r < length str" by simp
    have rec: "autocompleteSubstep (engine (ns_loop ks)) (Object 0) (tl ?rest) that'
        = Inl ItemOverflow" for that'
      using less.hyps [OF shorter long sub] rest by simp
    have "enum_loop (engine (ns_loop ks)) 0 ?item ?rest ks that = Inl ItemOverflow"
    proof (rule loop_overflow [OF rec])
      show "?rest \<noteq> []" using rest by simp
      show "set ks \<subseteq> set ks" by simp
      show "\<exists>name\<in>set ks. startsWith name ?item" using item startsWith_refl by blast
    qed
    then show ?thesis by (simp add: autocompleteSubstep.simps cs en)
  qed
qed

text \<open>
  Claim C9. The copy of the current segment into the 128-byte buffer \<^verbatim>\<open>item\<close>
  has no length check. The writes of the segment's bytes and of the terminating NUL
  stay inside the buffer, for every namespace the walk may run on, exactly when every
  dot-separated segment of the query is shorter than 128 bytes.
\<close>

theorem C9_item_buffer:
  "(\<forall>ctx v that. autocompleteSubstep ctx v str that \<noteq> Inl ItemOverflow)
     \<longleftrightarrow> (\<forall>seg\<in>set (split_dots str). length seg < 128)"
proof
  assume safe: "\<forall>ctx v that. autocompleteSubstep ctx v str that \<noteq> Inl ItemOverflow"
  show "\<forall>seg\<in>set (split_dots str). length seg < 128"
  proof (rule ccontr)
    assume "\<not> (\<forall>seg\<in>set (split_dots str). length seg < 128)"
    then have "\<exists>seg\<in>set (split_dots str). item_size \<le> length seg"
      by (auto simp: item_size_def not_less)
    from overflow_reached [OF this subset_refl, of new_plugin] safe show False by blast
  qed
next
  assume "\<forall>seg\<in>set (split_dots str). length seg < 128"
  then have "\<forall>seg\<in>set (split_dots str). length seg < item_size"
    by (simp add: item_size_def)
  from no_overflow(1) [OF this]
  show "\<forall>ctx v that. autocompleteSubstep ctx v str that \<noteq> Inl ItemOverflow" by blast
qed

theorem C9_item_buffer_witness:
  "autocompleteSubstep (engine ns_spec) (Object 0) ''a.b'' new_plugin \<noteq> Inl ItemOverflow
   \<and> autocompleteSubstep (engine ns_spec) (Object 0) (replicate 128 (CHR ''a'')) new_plugin
       = Inl ItemOverflow"
proof -
  have "\<forall>seg\<in>set (split_dots ''a.b''). length seg < 128" by simp
  with C9_item_buffer [of "''a.b''"]
  have "autocompleteSubstep (engine ns_spec) (Object 0) ''a.b'' new_plugin \<noteq> Inl ItemOverflow"
    by blast
  moreover have "autocompleteSubstep (engine ns_spec) (Object 0) (replicate 128 (CHR ''a'')) new_plugin
       = Inl ItemOverflow"
    by (simp add: autocompleteSubstep.simps copy_segment_eq item_size_def)
  ultimately show ?thesis by simp
qed

text \<open>
  On the way through the callback the precondition holds: the query is cut to at most
  127 bytes for \<^verbatim>\<open>tmp\<close>, so that no segment reaches 128 bytes.
\<close>

lemma split_dots_length: "seg \<in> set (split_dots s) \<Longrightarrow> length seg \<le> length s"
proof (induction s arbitrary: seg)
  case Nil
  then show ?case by simp
next
  case (Cons c cs)
  obtain x xs where sd: "split_dots cs = x # xs"
    using split_dots_not_Nil [of cs] by (cases "split_dots cs") auto
  show ?case
  proof (cases "c = CHR ''.''")
    case True
    with Cons.prems have "seg = [] \<or> seg \<in> set (split_dots cs)" by simp
    then show ?thesis
    proof
      assume "seg = []"
      then show ?thesis by simp
    next
      assume "seg \<in> set (split_dots cs)"
      from Cons.IH [OF this] show ?thesis by simp
    qed
  next
    case False
    with Cons.prems sd have "seg = c # x \<or> seg \<in> set xs" by simp
    then show ?thesis
    proof
      assume "seg = c # x"
      with Cons.IH [of x] sd show ?thesis by simp
    next
      assume "seg \<in> set xs"
      with Cons.IH [of seg] sd show ?thesis by simp
    qed
  qed
qed

lemma copyNString_length: "length (copyNString len source n) \<le> len - 1"
  by (auto simp: copyNString_def)

lemma callback_no_overflow:
  "autocompleteCallback ctx data that \<noteq> Inl ItemOverflow"
proof (cases "EventFlag data = ImGuiInputTextFlags_CallbackCompletion")
  case True
  let ?start = "fst (word_start (\<lambda>c. isWordChar c \<or> c = CHR ''.'') (Buf data) (CursorPos data))"
  let ?tmp = "copyNString 128 (drop (nat ?start) (Buf data)) (CursorPos data - ?start)"
  have "length ?tmp \<le> 127" using copyNString_length [of 128] by simp
  then have "\<forall>seg\<in>set (split_dots ?tmp). length seg < item_size"
    using split_dots_length [of _ ?tmp] by (fastforce simp: item_size_def)
  from no_overflow(1) [OF this]
  have "autocompleteSubstep ctx (Object (global_object ctx)) ?tmp (that\<lparr>autocomplete := []\<rparr>)
          \<noteq> Inl ItemOverflow" .
  with True show ?thesis
    by (auto simp: autocompleteCallback_def Let_def split: sum.splits)
next
  case False
  then show ?thesis
    by (auto simp: autocompleteCallback_def Let_def split: option.splits)
qed

subsection \<open>The backward scan of the callback\<close>

text \<open>
  The scan stops at a start of the word between 0 and the cursor, and it reads every
  index from one before that start up to one before the cursor.
\<close>

lemma scan_back_le: "fst (scan_back ok buf sw c reads) \<le> sw"
proof (induction ok buf sw c reads rule: scan_back.induct)
  case (1 ok buf sw c reads)
  show ?case
  proof (cases "sw > 0 \<and> (case c of Some ch \<Rightarrow> ok ch | None \<Rightarrow> False)")
    case True
    with "1.IH" [OF True] show ?thesis by (subst scan_back.simps) simp
  next
    case False
    then show ?thesis by (subst scan_back.simps) auto
  qed
qed

lemma scan_back_ge: "0 \<le> sw \<Longrightarrow> 0 \<le> fst (scan_back ok buf sw c reads)"
proof (induction ok buf sw c reads rule: scan_back.induct)
  case (1 ok buf sw c reads)
  show ?case
  proof (cases "sw > 0 \<and> (case c of Some ch \<Rightarrow> ok ch | None \<Rightarrow> False)")
    case True
    then have "0 \<le> sw - 1" by simp
    with "1.IH" [OF True] True show ?thesis by (subst scan_back.simps) simp
  next
    case False
    with "1.prems" show ?thesis by (subst scan_back.simps) auto
  qed
qed

lemma scan_back_reads:
  "snd (scan_back ok buf sw c reads) = reads @ rev [fst (scan_back ok buf sw c reads) - 1 .. sw - 2]"
proof (induction ok buf sw c reads rule: scan_back.induct)
  case (1 ok buf sw c reads)
  show ?case
  proof (cases "sw > 0 \<and> (case c of Some ch \<Rightarrow> ok ch | None \<Rightarrow> False)")
    case True
    let ?r = "scan_back ok buf (sw - 1) (buf_read buf (sw - 1 - 1)) (reads @ [sw - 1 - 1])"
    have eq: "scan_back ok buf sw c reads = ?r"
      using True by (subst scan_back.simps) simp
    have "fst ?r \<le> sw - 1" by (rule scan_back_le)
    then have "[fst ?r - 1 .. sw - 2] = [fst ?r - 1 .. sw - 1 - 2] @ [sw - 2]"
      by (subst upto_rec2) (simp_all add: algebra_simps)
    with "1.IH" [OF True] show ?thesis by (simp add: eq)
  next
    case False
    then have "scan_back ok buf sw c reads = (sw, reads)"
      by (subst scan_back.simps) auto
    then show ?thesis by simp
  qed
qed

lemma word_start_reads:
  "set (snd (word_start ok buf cursor)) = {fst (word_start ok buf cursor) - 1 .. cursor - 1}"
proof -
  let ?st = "fst (word_start ok buf cursor)"
  have le: "?st \<le> cursor" unfolding word_start_def by (rule scan_back_le)
  have "snd (word_start ok buf cursor) = [cursor - 1] @ rev [?st - 1 .. cursor - 2]"
    unfolding word_start_def by (rule scan_back_reads)
  with le show ?thesis by auto
qed

lemma scan_back_zero:
  "0 \<le> sw \<Longrightarrow> sw \<le> int (length buf) \<Longrightarrow> c = buf_read buf (sw - 1) \<Longrightarrow>
     fst (scan_back ok buf sw c reads) = 0 \<longleftrightarrow> (\<forall>i. 0 \<le> i \<and> i < sw \<longrightarrow> ok (buf ! nat i))"
proof (induction ok buf sw c reads rule: scan_back.induct)
  case (1 ok buf sw c reads)
  show ?case
  proof (cases "sw > 0 \<and> (case c of Some ch \<Rightarrow> ok ch | None \<Rightarrow> False)")
    case True
    let ?r = "scan_back ok buf (sw - 1) (buf_read buf (sw - 1 - 1)) (reads @ [sw - 1 - 1])"
    have eq: "scan_back ok buf sw c reads = ?r"
      using True by (subst scan_back.simps) simp
    from True "1.prems" have okc: "ok (buf ! nat (sw - 1))"
      by (auto simp: buf_read_def split: if_splits)
    from True "1.prems" have "0 \<le> sw - 1" "sw - 1 \<le> int (length buf)" by auto
    from "1.IH" [OF True this refl]
    have "fst ?r = 0 \<longleftrightarrow> (\<forall>i. 0 \<le> i \<and> i < sw - 1 \<longrightarrow> ok (buf ! nat i))" .
    also have "\<dots> \<longleftrightarrow> (\<forall>i. 0 \<le> i \<and> i < sw \<longrightarrow> ok (buf ! nat i))"
    proof
      assume a: "\<forall>i. 0 \<le> i \<and> i < sw - 1 \<longrightarrow> ok (buf ! nat i)"
      show "\<forall>i. 0 \<le> i \<and> i < sw \<longrightarrow> ok (buf ! nat i)"
      proof (intro allI impI)
        fix i assume "0 \<le> i \<and> i < sw"
        then have "i < sw - 1 \<or> i = sw - 1" by auto
        with a okc \<open>0 \<le> i \<and> i < sw\<close> show "ok (buf ! nat i)" by auto
      qed
    next
      assume "\<forall>i. 0 \<le> i \<and> i < sw \<longrightarrow> ok (buf ! nat i)"
      then show "\<forall>i. 0 \<le> i \<and> i < sw - 1 \<longrightarrow> ok (buf ! nat i)" by auto
    qed
    finally show ?thesis by (simp add: eq)
  next
    case False
    then have eq: "scan_back ok buf sw c reads = (sw, reads)"
      by (subst scan_back.simps) auto
    show ?thesis
    proof (cases "sw = 0")
      case True
      with eq have "fst (scan_back ok buf sw c reads) = 0" by simp
      moreover from True have "\<forall>i. 0 \<le> i \<and> i < sw \<longrightarrow> ok (buf ! nat i)" by auto
      ultimately show ?thesis by simp
    next
      case nz: False
      with "1.prems" have pos: "0 < sw" by simp
      with "1.prems" have "c = Some (buf ! nat (sw - 1))" by (simp add: buf_read_def)
      with False pos have "\<not> ok (buf ! nat (sw - 1))" by simp
      with pos have "\<not> (\<forall>i. 0 \<le> i \<and> i < sw \<longrightarrow> ok (buf ! nat i))"
        by (intro notI) (drule spec [of _ "sw - 1"], simp)
      with nz show ?thesis by (simp add: eq)
    qed
  qed
qed

text \<open>
  With the cursor inside the text, the scan stays inside \<open>[0, CursorPos)\<close> exactly
  when some character before the cursor fails the test of the scan. When every
  character before the cursor passes it (the word begins with the buffer, or the cursor
  is at 0), the last read is at index \<open>-1\<close>.
\<close>

lemma scan_in_buffer:
  assumes "0 \<le> cursor" "cursor \<le> int (length buf)"
  shows "(\<forall>i\<in>set (snd (word_start ok buf cursor)). 0 \<le> i \<and> i < cursor)
           \<longleftrightarrow> (\<exists>c\<in>set (take (nat cursor) buf). \<not> ok c)"
proof -
  let ?st = "fst (word_start ok buf cursor)"
  have ge: "0 \<le> ?st" unfolding word_start_def using assms(1) by (rule scan_back_ge)
  have le: "?st \<le> cursor" unfolding word_start_def by (rule scan_back_le)
  have zero: "?st = 0 \<longleftrightarrow> (\<forall>i. 0 \<le> i \<and> i < cursor \<longrightarrow> ok (buf ! nat i))"
    unfolding word_start_def using assms by (intro scan_back_zero) auto
  have "(\<forall>i\<in>set (snd (word_start ok buf cursor)). 0 \<le> i \<and> i < cursor) \<longleftrightarrow> ?st \<noteq> 0"
  proof
    assume a: "\<forall>i\<in>set (snd (word_start ok buf cursor)). 0 \<le> i \<and> i < cursor"
    from le have "?st - 1 \<in> set (snd (word_start ok buf cursor))"
      by (simp add: word_start_reads)
    with a show "?st \<noteq> 0" by auto
  next
    assume "?st \<noteq> 0"
    with ge show "\<forall>i\<in>set (snd (word_start ok buf cursor)). 0 \<le> i \<and> i < cursor"
      by (auto simp: word_start_reads)
  qed
  also have "\<dots> \<longleftrightarrow> \<not> (\<forall>i. 0 \<le> i \<and> i < cursor \<longrightarrow> ok (buf ! nat i))"
    by (simp add: zero)
  also have "\<dots> \<longleftrightarrow> (\<exists>c\<in>set (take (nat cursor) buf). \<not> ok c)"
  proof
    assume "\<not> (\<forall>i. 0 \<le> i \<and> i < cursor \<longrightarrow> ok (buf ! nat i))"
    then obtain i where i: "0 \<le> i" "i < cursor" "\<not> ok (buf ! nat i)" by auto
    with assms have "nat i < length (take (nat cursor) buf)" by auto
    then have "take (nat cursor) buf ! nat i \<in> set (take (nat cursor) buf)"
      by (rule nth_mem)
    with i show "\<exists>c\<in>set (take (nat cursor) buf). \<not> ok c" by auto
  next
    assume "\<exists>c\<in>set (take (nat cursor) buf). \<not> ok c"
    then obtain n where n: "n < length (take (nat cursor) buf)"
      "\<not> ok (take (nat cursor) buf ! n)"
      by (auto simp: in_set_conv_nth)
    then have "0 \<le> int n \<and> int n < cursor \<and> \<not> ok (buf ! nat (int n))" by auto
    then show "\<not> (\<forall>i. 0 \<le> i \<and> i < cursor \<longrightarrow> ok (buf ! nat i))" by blast
  qed
  finally show ?thesis .
qed

text \<open>
  Claim C10. The scan reads \<^verbatim>\<open>data->Buf[start_word - 1]\<close> before it tests
  \<^verbatim>\<open>start_word > 0\<close>, and the claim has it stay inside \<open>[0, CursorPos)\<close>
  whenever the cursor position is greater than 0. With the text \<^verbatim>\<open>a\<close> and the
  cursor at 1, both scans of the callback end at \<^verbatim>\<open>start_word = 0\<close> after the
  reads at the indices 0 and \<open>-1\<close>: the read at the end of the loop's round comes
  before the test that would stop the loop.
\<close>

theorem C10_scan_reads_before_buffer:
  "word_start (\<lambda>c. isWordChar c \<or> c = CHR ''.'') ''a'' 1 = (0, [0, - 1])
   \<and> word_start isWordChar ''a'' 1 = (0, [0, - 1])"
  by (simp add: word_start_def scan_back.simps buf_read_def isWordChar_def less_eq_char_def)

subsection \<open>The order of the delivered list\<close>

text \<open>
  The order on strings is the lexicographic order of lists over the order of
  characters as bytes. \<^verbatim>\<open>compareString\<close> decides it, and the sort by
  \<^verbatim>\<open>compareString\<close> gives a sorted list of the same strings.
\<close>

lemma compareString_le: "compareString a b \<le> 0 \<longleftrightarrow> a \<le> b"
proof (induction a b rule: compareString.induct)
  case (4 l lhs r rhs)
  show ?case
  proof (cases "l = r")
    case True
    with 4 show ?thesis by simp
  next
    case False
    have "(of_char l :: nat) \<noteq> of_char r" using False by simp
    then have "int (of_char l :: nat) - int (of_char r :: nat) \<le> 0
        \<longleftrightarrow> (of_char l :: nat) < of_char r"
      by linarith
    then have "int (of_char l :: nat) - int (of_char r :: nat) \<le> 0 \<longleftrightarrow> l < r"
      by (simp add: less_char_def)
    with False show ?thesis by simp
  qed
qed simp_all

lemma set_qsort_insert: "set (qsort_insert cmp x ys) = insert x (set ys)"
  by (induction ys) auto

lemma sorted_qsort_insert:
  "sorted ys \<Longrightarrow> sorted (qsort_insert compareString x ys)"
proof (induction ys)
  case Nil
  show ?case by simp
next
  case (Cons y ys)
  show ?case
  proof (cases "compareString x y \<le> 0")
    case True
    then have "x \<le> y" by (simp add: compareString_le)
    with Cons.prems True show ?thesis by auto
  next
    case False
    then have "y \<le> x" by (simp add: compareString_le)
    with Cons False show ?thesis by (auto simp: set_qsort_insert)
  qed
qed

lemma sorted_qsort: "sorted (qsort compareString xs)"
  unfolding qsort_def by (induction xs) (simp_all add: sorted_qsort_insert)

lemma set_qsort: "set (qsort cmp xs) = set xs"
  unfolding qsort_def by (induction xs) (simp_all add: set_qsort_insert)

text \<open>
  Claim C6. After a completion event the candidate list the callback leaves for its
  caller is sorted in ascending byte-wise lexicographic order, for every namespace and
  every text in the buffer. In the witness the walk finds \<^verbatim>\<open>bc\<close> before
  \<^verbatim>\<open>b\<close>, and the callback delivers \<^verbatim>\<open>b\<close> before \<^verbatim>\<open>bc\<close>.
\<close>

theorem C6_candidates_sorted:
  assumes "EventFlag data = ImGuiInputTextFlags_CallbackCompletion"
    and "autocompleteCallback ctx data that = Inr (ctx', data', that')"
  shows "sorted (autocomplete that')"
proof -
  let ?start = "fst (word_start (\<lambda>c. isWordChar c \<or> c = CHR ''.'') (Buf data) (CursorPos data))"
  let ?tmp = "copyNString 128 (drop (nat ?start) (Buf data)) (CursorPos data - ?start)"
  from assms obtain ctx1 that1
    where walk: "autocompleteSubstep ctx (Object (global_object ctx)) ?tmp
                   (that\<lparr>autocomplete := []\<rparr>) = Inr (ctx1, that1)"
    by (auto simp: autocompleteCallback_def Let_def split: sum.splits)
  show ?thesis
  proof (cases "autocomplete that1 = []")
    case True
    with assms walk have "that' = that1"
      by (simp add: autocompleteCallback_def Let_def)
    with True show ?thesis by simp
  next
    case False
    with assms walk
    have "that' = that1\<lparr>open_autocomplete := True,
                         autocomplete := qsort compareString (autocomplete that1)\<rparr>"
      by (simp add: autocompleteCallback_def Let_def)
    then show ?thesis by (simp add: sorted_qsort)
  qed
qed

theorem C6_candidates_sorted_witness:
  "autocompleteSubstep (engine ns_bc) (Object 0) ''b'' new_plugin
     = Inr (engine ns_bc, new_plugin\<lparr>autocomplete := [''bc'', ''b'']\<rparr>)
   \<and> autocompleteCallback (engine ns_bc)
        \<lparr>EventFlag = ImGuiInputTextFlags_CallbackCompletion, Buf = ''b'', CursorPos = 1\<rparr> new_plugin
     = Inr (engine ns_bc,
            \<lparr>EventFlag = ImGuiInputTextFlags_CallbackCompletion, Buf = ''b'', CursorPos = 1\<rparr>,
            new_plugin\<lparr>autocomplete := [''b'', ''bc''], open_autocomplete := True\<rparr>)
   \<and> sorted [''b'', ''bc'']"
proof -
  have walk: "autocompleteSubstep (engine ns_bc) (Object 0) ''b'' new_plugin
     = Inr (engine ns_bc, new_plugin\<lparr>autocomplete := [''bc'', ''b'']\<rparr>)"
    by (simp add: autocompleteSubstep.simps copy_segment_start duk_enum_def
          duk_get_prop_string_def engine_def ns_bc_def new_plugin_def)
  have scan: "word_start (\<lambda>c. isWordChar c \<or> c = CHR ''.'') ''b'' 1 = (0, [0, - 1])"
    by (simp add: word_start_def scan_back.simps buf_read_def isWordChar_def less_eq_char_def)
  have cb: "autocompleteCallback (engine ns_bc)
        \<lparr>EventFlag = ImGuiInputTextFlags_CallbackCompletion, Buf = ''b'', CursorPos = 1\<rparr> new_plugin
     = Inr (engine ns_bc,
            \<lparr>EventFlag = ImGuiInputTextFlags_CallbackCompletion, Buf = ''b'', CursorPos = 1\<rparr>,
            new_plugin\<lparr>autocomplete := [''b'', ''bc''], open_autocomplete := True\<rparr>)"
    by (simp add: autocompleteCallback_def scan copyNString_def autocompleteSubstep.simps
          copy_segment_start duk_enum_def duk_get_prop_string_def engine_def ns_bc_def
          new_plugin_def qsort_def Let_def)
  from C6_candidates_sorted [OF _ cb] have "sorted [''b'', ''bc'']"
    by (simp add: new_plugin_def)
  with walk cb show ?thesis by (intro conjI)
qed

subsection \<open>Candidates and paths\<close>

text \<open>
  A name is among the candidates of a list of segments exactly when some chain of
  property names leads from the node to a node that has the name, each name of the
  chain beginning with its segment and the name itself beginning with the last segment.
\<close>

lemma candidates_Cons:
  "segs \<noteq> [] \<Longrightarrow> candidates h v (seg # segs) =
     concat (map (\<lambda>name. candidates h (value_of h v name) segs)
                 (filter (\<lambda>name. startsWith name seg) (names_of h v)))"
  by (cases segs) simp_all

lemma candidates_iff:
  "c \<in> set (candidates h v segs) \<longleftrightarrow>
     segs \<noteq> [] \<and> (\<exists>ks. prefix_path h v (butlast segs) ks
        \<and> c \<in> set (names_of h (follow h v ks)) \<and> startsWith c (last segs))"
proof (induction h v segs rule: candidates.induct)
  case (1 h v)
  show ?case by simp
next
  case (2 h v p)
  have "(\<exists>ks. prefix_path h v [] ks \<and> c \<in> set (names_of h (follow h v ks)) \<and> startsWith c p)
      \<longleftrightarrow> c \<in> set (names_of h v) \<and> startsWith c p"
  proof
    assume "\<exists>ks. prefix_path h v [] ks \<and> c \<in> set (names_of h (follow h v ks)) \<and> startsWith c p"
    then obtain ks where ks: "prefix_path h v [] ks"
      "c \<in> set (names_of h (follow h v ks))" "startsWith c p" by blast
    from ks(1) have "ks = []" by (cases ks) simp_all
    with ks show "c \<in> set (names_of h v) \<and> startsWith c p" by simp
  next
    assume "c \<in> set (names_of h v) \<and> startsWith c p"
    then have "prefix_path h v [] [] \<and> c \<in> set (names_of h (follow h v [])) \<and> startsWith c p"
      by simp
    then show "\<exists>ks. prefix_path h v [] ks \<and> c \<in> set (names_of h (follow h v ks)) \<and> startsWith c p"
      by blast
  qed
  then show ?case by auto
next
  case (3 h v seg s segs)
  let ?Q = "\<lambda>u ks. prefix_path h u (butlast (s # segs)) ks
      \<and> c \<in> set (names_of h (follow h u ks)) \<and> startsWith c (last (s # segs))"
  have IH: "c \<in> set (candidates h (value_of h v name) (s # segs))
      \<longleftrightarrow> (\<exists>ks. ?Q (value_of h v name) ks)"
    if "name \<in> set (names_of h v)" "startsWith name seg" for name
    using "3" [of name] that by (simp del: butlast.simps last.simps)
  have "c \<in> set (candidates h v (seg # s # segs)) \<longleftrightarrow>
      (\<exists>name\<in>set (names_of h v). startsWith name seg
          \<and> c \<in> set (candidates h (value_of h v name) (s # segs)))"
    by auto
  also have "\<dots> \<longleftrightarrow> (\<exists>name\<in>set (names_of h v). startsWith name seg
          \<and> (\<exists>ks. ?Q (value_of h v name) ks))"
    using IH by blast
  also have "\<dots> \<longleftrightarrow> (\<exists>ks. prefix_path h v (seg # butlast (s # segs)) ks
        \<and> c \<in> set (names_of h (follow h v ks)) \<and> startsWith c (last (s # segs)))"
  proof
    assume "\<exists>name\<in>set (names_of h v). startsWith name seg \<and> (\<exists>ks. ?Q (value_of h v name) ks)"
    then obtain name ks where "name \<in> set (names_of h v)" "startsWith name seg"
      "?Q (value_of h v name) ks" by blast
    then have "prefix_path h v (seg # butlast (s # segs)) (name # ks)
        \<and> c \<in> set (names_of h (follow h v (name # ks))) \<and> startsWith c (last (s # segs))"
      by simp
    then show "\<exists>ks. prefix_path h v (seg # butlast (s # segs)) ks
        \<and> c \<in> set (names_of h (follow h v ks)) \<and> startsWith c (last (s # segs))" by blast
  next
    assume "\<exists>ks. prefix_path h v (seg # butlast (s # segs)) ks
        \<and> c \<in> set (names_of h (follow h v ks)) \<and> startsWith c (last (s # segs))"
    then obtain ks where ks: "prefix_path h v (seg # butlast (s # segs)) ks"
      "c \<in> set (names_of h (follow h v ks))" "startsWith c (last (s # segs))" by blast
    from ks(1) obtain name ks' where eq: "ks = name # ks'" by (cases ks) simp_all
    with ks have "name \<in> set (names_of h v) \<and> startsWith name seg \<and> ?Q (value_of h v name) ks'"
      by simp
    then show "\<exists>name\<in>set (names_of h v). startsWith name seg \<and> (\<exists>ks. ?Q (value_of h v name) ks)"
      by blast
  qed
  finally show ?case by simp
qed

text \<open>
  The walk at the last segment: on a query without a dot the loop reads no property
  value; it adds the names of the node that begin with the query.
\<close>

lemma enum_loop_last:
  "enum_loop ctx a item [] names that =
     Inr (ctx, that\<lparr>autocomplete := autocomplete that @ filter (\<lambda>name. startsWith name item) names\<rparr>)"
  by (induction names arbitrary: that) simp_all

lemma walk_last_segment:
  "CHR ''.'' \<notin> set p \<Longrightarrow> autocompleteSubstep ctx (Object a) p that =
     (if length p < 128
      then Inr (ctx, that\<lparr>autocomplete := autocomplete that @
                  filter (\<lambda>name. startsWith name p) (map fst (heap ctx a))\<rparr>)
      else Inl ItemOverflow)"
proof -
  assume "CHR ''.'' \<notin> set p"
  then have tw: "takeWhile (\<lambda>x. x \<noteq> CHR ''.'') p = p"
    and dw: "dropWhile (\<lambda>x. x \<noteq> CHR ''.'') p = []"
    by (auto intro: takeWhile_eq_all_conv [THEN iffD2])
  show ?thesis
    unfolding autocompleteSubstep.simps copy_segment_start tw dw
    by (simp add: duk_enum_def enum_loop_last)
qed

subsection \<open>The trailing segment\<close>

text \<open>
  Claim C5. Every candidate a resolution adds begins with the trailing segment of the
  query, the text behind the last dot. When the trailing segment is empty, every
  property name of every terminal node, a node at the end of a chain of names the
  traversal follows, is kept.
\<close>

theorem C5_candidates_begin_with_prefix:
  assumes "autocompleteSubstep ctx v str that = Inr (ctx', that')"
  shows "\<exists>new. autocomplete that' = autocomplete that @ new
           \<and> (\<forall>c\<in>set new. prefix (last (split_dots str)) c)
           \<and> (last (split_dots str) = [] \<longrightarrow>
                (\<forall>ks. prefix_path (heap ctx) v (butlast (split_dots str)) ks \<longrightarrow>
                   set (names_of (heap ctx) (follow (heap ctx) v ks)) \<subseteq> set new))"
proof -
  let ?new = "candidates (heap ctx) v (split_dots str)"
  from walk_candidates(1) [OF assms]
  have "autocomplete that' = autocomplete that @ ?new" by simp
  moreover have "\<forall>c\<in>set ?new. prefix (last (split_dots str)) c"
    by (auto simp: candidates_iff startsWith_prefix)
  moreover have "last (split_dots str) = [] \<longrightarrow>
      (\<forall>ks. prefix_path (heap ctx) v (butlast (split_dots str)) ks \<longrightarrow>
         set (names_of (heap ctx) (follow (heap ctx) v ks)) \<subseteq> set ?new)"
  proof (intro impI allI subsetI)
    fix ks c
    assume "last (split_dots str) = []"
      and "prefix_path (heap ctx) v (butlast (split_dots str)) ks"
      and "c \<in> set (names_of (heap ctx) (follow (heap ctx) v ks))"
    then show "c \<in> set ?new"
      using split_dots_not_Nil [of str] by (auto simp: candidates_iff)
  qed
  ultimately show ?thesis by blast
qed

theorem C5_candidates_begin_with_prefix_witness:
  "autocompleteSubstep (engine ns_spec) (Object 0) ''a.'' new_plugin
     = Inr (engine ns_spec, new_plugin\<lparr>autocomplete := [''b'', ''bc'']\<rparr>)
   \<and> (\<exists>new. [''b'', ''bc''] = new
         \<and> list_all (prefix []) new
         \<and> set (names_of ns_spec (follow ns_spec (Object 0) [''a''])) \<subseteq> set new)"
proof -
  have walk: "autocompleteSubstep (engine ns_spec) (Object 0) ''a.'' new_plugin
     = Inr (engine ns_spec, new_plugin\<lparr>autocomplete := [''b'', ''bc'']\<rparr>)"
    by (simp add: autocompleteSubstep.simps copy_segment_start duk_enum_def
          duk_get_prop_string_def engine_def ns_spec_def new_plugin_def)
  have path: "prefix_path (heap (engine ns_spec)) (Object 0) (butlast (split_dots ''a.'')) [''a'']"
    by (simp add: names_of_def ns_spec_def engine_def)
  have empty: "last (split_dots ''a.'') = []" by simp
  from C5_candidates_begin_with_prefix [OF walk] obtain new
    where new: "autocomplete (new_plugin\<lparr>autocomplete := [''b'', ''bc'']\<rparr>)
                  = autocomplete new_plugin @ new"
      and pre: "\<forall>c\<in>set new. prefix (last (split_dots ''a.'')) c"
      and all: "last (split_dots ''a.'') = [] \<longrightarrow>
                (\<forall>ks. prefix_path (heap (engine ns_spec)) (Object 0) (butlast (split_dots ''a.'')) ks \<longrightarrow>
                   set (names_of (heap (engine ns_spec)) (follow (heap (engine ns_spec)) (Object 0) ks))
                     \<subseteq> set new)"
    by blast
  from new have eq: "[''b'', ''bc''] = new" by (simp add: new_plugin_def)
  from pre empty have "list_all (prefix []) new" by (simp add: list_all_iff)
  moreover from all empty path
  have "set (names_of (heap (engine ns_spec)) (follow (heap (engine ns_spec)) (Object 0) [''a'']))
          \<subseteq> set new" by blast
  then have "set (names_of ns_spec (follow ns_spec (Object 0) [''a''])) \<subseteq> set new"
    by (simp add: engine_def)
  ultimately show ?thesis using walk eq by blast
qed

subsection \<open>The segments before the last\<close>

lemma walk_new_candidates:
  assumes "autocompleteSubstep ctx v str that = Inr (ctx', that')"
  shows "drop (length (autocomplete that)) (autocomplete that')
           = candidates (heap ctx) v (split_dots str)"
  using walk_candidates(1) [OF assms] by simp

text \<open>
  Claim C1 has the traversal match every segment before the last exactly. In the
  namespace \<^verbatim>\<open>{ab: {c: 1}}\<close> the query \<^verbatim>\<open>a.c\<close> produces the candidate
  \<^verbatim>\<open>c\<close>, and no property on the way is named \<^verbatim>\<open>a\<close>: the walk tests every
  segment with \<^verbatim>\<open>startsWith\<close>, the last one and the ones before it alike.
\<close>

theorem C1_exact_traversal_counterexample:
  "autocompleteSubstep (engine ns_ab) (Object 0) ''a.c'' new_plugin
     = Inr (engine ns_ab, new_plugin\<lparr>autocomplete := [''c'']\<rparr>)
   \<and> \<not> (\<exists>ks. exact_path ns_ab (Object 0) (butlast (split_dots ''a.c'')) ks)"
proof -
  have "autocompleteSubstep (engine ns_ab) (Object 0) ''a.c'' new_plugin
     = Inr (engine ns_ab, new_plugin\<lparr>autocomplete := [''c'']\<rparr>)"
    by (simp add: autocompleteSubstep.simps copy_segment_start duk_enum_def
          duk_get_prop_string_def engine_def ns_ab_def new_plugin_def)
  moreover have "\<not> exact_path ns_ab (Object 0) (butlast (split_dots ''a.c'')) ks" for ks
    by (cases ks) (simp_all add: names_of_def ns_ab_def)
  ultimately show ?thesis by blast
qed

text \<open>
  Claim C1, amended. For every namespace and every query, a candidate is produced only
  if a chain of property names leads from the root to a terminal node that has the
  candidate as a property name, with one name for each segment before the last, each
  name beginning with its segment.
\<close>

theorem C1_prefix_traversal:
  assumes "autocompleteSubstep ctx v str that = Inr (ctx', that')"
    and "c \<in> set (drop (length (autocomplete that)) (autocomplete that'))"
  shows "\<exists>ks. prefix_path (heap ctx) v (butlast (split_dots str)) ks
           \<and> c \<in> set (names_of (heap ctx) (follow (heap ctx) v ks))"
proof -
  from assms have "c \<in> set (candidates (heap ctx) v (split_dots str))"
    by (simp add: walk_new_candidates)
  then show ?thesis by (auto simp: candidates_iff)
qed

theorem C1_prefix_traversal_witness:
  "\<exists>ks. prefix_path ns_ab (Object 0) [''a''] ks
         \<and> ''c'' \<in> set (names_of ns_ab (follow ns_ab (Object 0) ks))"
proof -
  have walk: "autocompleteSubstep (engine ns_ab) (Object 0) ''a.c'' new_plugin
     = Inr (engine ns_ab, new_plugin\<lparr>autocomplete := [''c'']\<rparr>)"
    by (simp add: autocompleteSubstep.simps copy_segment_start duk_enum_def
          duk_get_prop_string_def engine_def ns_ab_def new_plugin_def)
  have new: "''c'' \<in> set (drop (length (autocomplete new_plugin))
                       (autocomplete (new_plugin\<lparr>autocomplete := [''c'']\<rparr>)))"
    by (simp add: new_plugin_def)
  from C1_prefix_traversal [OF walk new] show ?thesis by (simp add: engine_def)
qed

text \<open>A loop in which no name begins with the segment changes nothing.\<close>

lemma enum_loop_no_match:
  "\<forall>name\<in>set names. \<not> startsWith name item \<Longrightarrow>
     enum_loop ctx a item rest names that = Inr (ctx, that)"
  by (induction names) simp_all

text \<open>
  Claim C2 has a segment that names no property end the resolution with an empty list.
  In the namespace \<^verbatim>\<open>{zed: {b: 1}}\<close>, which has no top-level property named
  \<^verbatim>\<open>z\<close>, the query \<^verbatim>\<open>z.b\<close> yields \<^verbatim>\<open>["b"]\<close>.
\<close>

theorem C2_miss_counterexample:
  "autocompleteSubstep (engine ns_zed) (Object 0) ''z.b'' new_plugin
     = Inr (engine ns_zed, new_plugin\<lparr>autocomplete := [''b'']\<rparr>)
   \<and> ''z'' \<notin> set (names_of ns_zed (Object 0))"
  by (simp add: autocompleteSubstep.simps copy_segment_start duk_enum_def
        duk_get_prop_string_def engine_def ns_zed_def new_plugin_def names_of_def)

text \<open>
  Claim C2, amended. If no property name of the node begins with the first segment of
  the query (and the segment fits the buffer), the resolution returns with no candidate
  and no error. And a resolution that returns has added no candidate when no chain of
  property names, each beginning with its segment, leads through all the segments
  before the last.
\<close>

theorem C2_traversal_miss:
  "(length (hd (split_dots str)) < 128 \<longrightarrow>
      (\<forall>name\<in>set (map fst (heap ctx a)). \<not> prefix (hd (split_dots str)) name) \<longrightarrow>
      autocompleteSubstep ctx (Object a) str that = Inr (ctx, that))
   \<and> (autocompleteSubstep ctx v str that = Inr (ctx', that') \<longrightarrow>
      \<not> (\<exists>ks. prefix_path (heap ctx) v (butlast (split_dots str)) ks) \<longrightarrow>
      autocomplete that' = autocomplete that)"
proof (intro conjI impI)
  let ?P = "\<lambda>x. x \<noteq> CHR ''.''"
  assume short: "length (hd (split_dots str)) < 128"
    and miss: "\<forall>name\<in>set (map fst (heap ctx a)). \<not> prefix (hd (split_dots str)) name"
  have hd: "hd (split_dots str) = takeWhile ?P str"
    by (subst split_dots_unfold) simp
  from short have cs: "copy_segment str 0 [] = Inr (takeWhile ?P str, dropWhile ?P str)"
    by (simp add: copy_segment_start hd)
  from miss have "\<forall>name\<in>set (map fst (heap ctx a)). \<not> startsWith name (takeWhile ?P str)"
    by (simp add: startsWith_prefix hd)
  then have "enum_loop ctx a (takeWhile ?P str) (dropWhile ?P str) (map fst (heap ctx a)) that
      = Inr (ctx, that)"
    by (rule enum_loop_no_match)
  then show "autocompleteSubstep ctx (Object a) str that = Inr (ctx, that)"
    by (simp add: autocompleteSubstep.simps cs duk_enum_def)
next
  assume walk: "autocompleteSubstep ctx v str that = Inr (ctx', that')"
    and none: "\<not> (\<exists>ks. prefix_path (heap ctx) v (butlast (split_dots str)) ks)"
  have "candidates (heap ctx) v (split_dots str) = []"
  proof (cases "candidates (heap ctx) v (split_dots str)")
    case Nil
    then show ?thesis .
  next
    case (Cons c cs)
    then have "c \<in> set (candidates (heap ctx) v (split_dots str))" by simp
    then have "\<exists>ks. prefix_path (heap ctx) v (butlast (split_dots str)) ks"
      unfolding candidates_iff by blast
    with none show ?thesis by simp
  qed
  with walk_candidates(1) [OF walk] show "autocomplete that' = autocomplete that"
    by simp
qed

theorem C2_traversal_miss_witness:
  "autocompleteSubstep (engine ns_spec) (Object 0) ''z.b'' new_plugin
     = Inr (engine ns_spec, new_plugin)
   \<and> autocompleteSubstep (engine ns_nested) (Object 0) ''a.z.b'' new_plugin
     = Inr (engine ns_nested, new_plugin)
   \<and> \<not> (\<exists>ks. prefix_path ns_nested (Object 0) [''a'', ''z''] ks)"
proof -
  have short: "length (hd (split_dots ''z.b'')) < 128" by simp
  have miss: "\<forall>name\<in>set (map fst (heap (engine ns_spec) 0)). \<not> prefix (hd (split_dots ''z.b'')) name"
    by (simp add: engine_def ns_spec_def)
  from C2_traversal_miss [of "''z.b''" "engine ns_spec" 0 new_plugin] short miss
  have one: "autocompleteSubstep (engine ns_spec) (Object 0) ''z.b'' new_plugin
     = Inr (engine ns_spec, new_plugin)" by blast
  have two: "autocompleteSubstep (engine ns_nested) (Object 0) ''a.z.b'' new_plugin
     = Inr (engine ns_nested, new_plugin)"
    by (simp add: autocompleteSubstep.simps copy_segment_start duk_enum_def
          duk_get_prop_string_def engine_def ns_nested_def new_plugin_def)
  have "\<not> prefix_path ns_nested (Object 0) [''a'', ''z''] ks" for ks
  proof (cases ks)
    case Nil
    then show ?thesis by simp
  next
    case (Cons k ks')
    then show ?thesis
      by (cases ks') (auto simp: names_of_def value_of_def property_value_def ns_nested_def)
  qed
  then have three: "\<not> (\<exists>ks. prefix_path ns_nested (Object 0) [''a'', ''z''] ks)" by blast
  from one two three show ?thesis by (intro conjI)
qed

subsection \<open>Malformed queries\<close>

text \<open>At an empty segment every property name of the node continues a path.\<close>

lemma prefix_path_empty_segment:
  "prefix_path h v ([] # segs) (k # ks)
     \<longleftrightarrow> k \<in> set (names_of h v) \<and> prefix_path h (value_of h v k) segs ks"
  by simp

text \<open>
  Claim C7 has every malformed query resolve to an empty list. In the namespace
  \<^verbatim>\<open>{a: {b: 1}}\<close> the query \<^verbatim>\<open>.b\<close> with its leading dot yields
  \<^verbatim>\<open>["b"]\<close>, and in \<^verbatim>\<open>{a: {b: {bb: 1}}}\<close> the query \<^verbatim>\<open>a..b\<close> with
  its empty segment in the middle yields \<^verbatim>\<open>["bb"]\<close>.
\<close>

theorem C7_malformed_counterexample:
  "autocompleteSubstep (engine ns_nested) (Object 0) ''.b'' new_plugin
     = Inr (engine ns_nested, new_plugin\<lparr>autocomplete := [''b'']\<rparr>)
   \<and> autocompleteSubstep (engine ns_deep) (Object 0) ''a..b'' new_plugin
     = Inr (engine ns_deep, new_plugin\<lparr>autocomplete := [''bb'']\<rparr>)"
  by (simp add: autocompleteSubstep.simps copy_segment_start duk_enum_def
        duk_get_prop_string_def engine_def ns_nested_def ns_deep_def new_plugin_def)

text \<open>
  Claim C7, amended. A malformed query is resolved like any other: the empty segment
  of a leading dot or of two dots in a row is the beginning of every property name, so
  every property of the node is followed at its step. Whenever the resolution returns,
  every property name that begins with the trailing segment, on every node at the end
  of a chain of names that each begin with their segment, is among the candidates.
\<close>

theorem C7_empty_segment_matches_all:
  assumes "autocompleteSubstep ctx v str that = Inr (ctx', that')"
    and "prefix_path (heap ctx) v (butlast (split_dots str)) ks"
    and "c \<in> set (names_of (heap ctx) (follow (heap ctx) v ks))"
    and "prefix (last (split_dots str)) c"
  shows "c \<in> set (autocomplete that')"
proof -
  from assms(2-4) have "c \<in> set (candidates (heap ctx) v (split_dots str))"
    unfolding candidates_iff startsWith_prefix using split_dots_not_Nil [of str] by blast
  with walk_candidates(1) [OF assms(1)] show ?thesis by simp
qed

theorem C7_empty_segment_matches_all_witness:
  "prefix_path ns_deep (Object 0) [''a'', []] [''a'', ''b'']
   \<and> ''bb'' \<in> set (names_of ns_deep (follow ns_deep (Object 0) [''a'', ''b'']))
   \<and> ''bb'' \<in> set (autocomplete (new_plugin\<lparr>autocomplete := [''bb'']\<rparr>))"
proof -
  have walk: "autocompleteSubstep (engine ns_deep) (Object 0) ''a..b'' new_plugin
     = Inr (engine ns_deep, new_plugin\<lparr>autocomplete := [''bb'']\<rparr>)"
    by (simp add: autocompleteSubstep.simps copy_segment_start duk_enum_def
          duk_get_prop_string_def engine_def ns_deep_def new_plugin_def)
  have path: "prefix_path (heap (engine ns_deep)) (Object 0) (butlast (split_dots ''a..b''))
                [''a'', ''b'']"
    by (simp add: engine_def names_of_def value_of_def property_value_def ns_deep_def)
  have name: "''bb'' \<in> set (names_of (heap (engine ns_deep))
                 (follow (heap (engine ns_deep)) (Object 0) [''a'', ''b'']))"
    by (simp add: engine_def names_of_def value_of_def property_value_def ns_deep_def)
  have pre: "prefix (last (split_dots ''a..b'')) ''bb''" by simp
  from C7_empty_segment_matches_all [OF walk path name pre]
  have "''bb'' \<in> set (autocomplete (new_plugin\<lparr>autocomplete := [''bb'']\<rparr>))" .
  with path name show ?thesis by (simp add: engine_def)
qed

subsection \<open>Reads and getters\<close>

text \<open>A property read runs the getter of an accessor property and nothing else.\<close>

lemma get_prop_calls:
  "duk_get_prop_string ctx a name = (v, ctx1) \<Longrightarrow>
     getter_calls ctx1 = getter_calls ctx @ accessor_reads (heap ctx) (Object a) name"
  by (auto simp: duk_get_prop_string_def accessor_reads_def
           split: option.splits property.splits)

text \<open>
  The walk against the comprehension of the getters: a walk that returns has run
  exactly the getters of \<open>getter_runs\<close>, in their order.
\<close>

lemma walk_getters:
  "autocompleteSubstep ctx v str that = Inr (ctx', that') \<Longrightarrow>
     getter_calls ctx' = getter_calls ctx @ getter_runs (heap ctx) v (split_dots str)"
  "enum_loop ctx a item rest names that = Inr (ctx', that') \<Longrightarrow>
     rest = [] \<or> hd rest = CHR ''.'' \<Longrightarrow>
     getter_calls ctx' = getter_calls ctx @
        (if rest = [] then []
         else concat (map (\<lambda>name. accessor_reads (heap ctx) (Object a) name @
                            getter_runs (heap ctx) (value_of (heap ctx) (Object a) name)
                              (split_dots (tl rest)))
                 (filter (\<lambda>name. startsWith name item) names)))"
proof (induction ctx v str that and ctx a item rest names that arbitrary: ctx' that' and ctx' that'
    rule: autocompleteSubstep_enum_loop.induct)
  case (1 ctx v str that)
  let ?P = "\<lambda>x. x \<noteq> CHR ''.''"
  from "1.prems" obtain a where v: "v = Object a"
    and cs: "copy_segment str 0 [] = Inr (takeWhile ?P str, dropWhile ?P str)"
    and en: "duk_enum ctx v = Inr (a, map fst (heap ctx a))"
    and loop: "enum_loop ctx a (takeWhile ?P str) (dropWhile ?P str) (map fst (heap ctx a)) that
                 = Inr (ctx', that')"
    by (auto simp: autocompleteSubstep.simps copy_segment_eq duk_enum_def
             split: if_splits jsval.splits)
  note IH = "1.IH" [OF cs refl en refl loop dropWhile_dot]
  show ?case
  proof (cases "dropWhile ?P str")
    case Nil
    have "split_dots str = [takeWhile ?P str]"
      by (subst split_dots_unfold) (simp only: Nil list.case)
    with Nil IH show ?thesis
      by (simp del: dropWhile_eq_Nil_conv)
  next
    case (Cons d r)
    obtain s segs where sd: "split_dots r = s # segs"
      using split_dots_not_Nil [of r] by (cases "split_dots r") auto
    have "split_dots str = takeWhile ?P str # s # segs"
      by (subst split_dots_unfold) (simp only: Cons list.case sd)
    with Cons IH show ?thesis
      by (simp add: v names_of_def sd)
  qed
next
  case (2 ctx a item rest that)
  then show ?case by simp
next
  case (3 ctx a item rest name names that)
  show ?case
  proof (cases "startsWith name item")
    case False
    from "3.prems"(1) False
    have loop: "enum_loop ctx a item rest names that = Inr (ctx', that')" by simp
    from "3.IH"(6) [OF False loop "3.prems"(2)] False show ?thesis by simp
  next
    case True
    show ?thesis
    proof (cases "rest = []")
      case rn: True
      then have nd: "rest \<noteq> ''.''" by simp
      from "3.prems"(1) True rn
      have loop: "enum_loop ctx a item rest names
                    (that\<lparr>autocomplete := autocomplete that @ [name]\<rparr>) = Inr (ctx', that')"
        by simp
      from "3.IH"(3) [OF True nd rn loop "3.prems"(2)] True rn show ?thesis by simp
    next
      case rn: False
      obtain v ctx1 where gp: "duk_get_prop_string ctx a name = (v, ctx1)"
        by (cases "duk_get_prop_string ctx a name")
      note gv = get_prop_value [OF gp]
      note gc = get_prop_calls [OF gp]
      show ?thesis
      proof (cases "rest = ''.''")
        case dot: True
        from "3.prems" True dot gp obtain ctx2 that2
          where sub: "autocompleteSubstep ctx1 v [] that = Inr (ctx2, that2)"
            and loop: "enum_loop ctx2 a item rest names that2 = Inr (ctx', that')"
          by (auto split: sum.splits)
        note hp = walk_candidates(1) [OF sub]
        note IH1 = "3.IH"(1) [OF True dot gp [symmetric] sub]
        note IH2 = "3.IH"(2) [OF True dot gp [symmetric] sub refl loop "3.prems"(2)]
        from IH1 IH2 gv gc hp True dot show ?thesis by simp
      next
        case dot: False
        from "3.prems" True dot rn gp obtain ctx2 that2
          where sub: "autocompleteSubstep ctx1 v (tl rest) that = Inr (ctx2, that2)"
            and loop: "enum_loop ctx2 a item rest names that2 = Inr (ctx', that')"
          by (auto split: sum.splits)
        note hp = walk_candidates(1) [OF sub]
        note IH1 = "3.IH"(4) [OF True dot rn gp [symmetric] sub]
        note IH2 = "3.IH"(5) [OF True dot rn gp [symmetric] sub refl loop "3.prems"(2)]
        from IH1 IH2 gv gc hp True dot rn show ?thesis by simp
      qed
    qed
  qed
qed

lemma accessor_reads_iff:
  "(a, name) \<in> set (accessor_reads h v k)
     \<longleftrightarrow> v = Object a \<and> k = name \<and> (\<exists>w. map_of (h a) name = Some (Accessor w))"
  by (cases v; cases "map_of (h a) name"; cases "map_of (h a) k")
     (auto simp: accessor_reads_def split: property.splits)

lemma map_of_names_of: "map_of (h a) name = Some p \<Longrightarrow> name \<in> set (names_of h (Object a))"
  by (auto simp: names_of_def dest: map_of_SomeD intro: rev_image_eqI)

text \<open>
  A getter is among the runs exactly when its property is an accessor of a node the
  traversal reaches and its name begins with the segment of that step, a segment
  before the last.
\<close>

lemma getter_runs_iff:
  "(a, name) \<in> set (getter_runs h v segs) \<longleftrightarrow>
     (\<exists>ks. Suc (length ks) < length segs
        \<and> prefix_path h v (take (length ks) segs) ks
        \<and> follow h v ks = Object a
        \<and> startsWith name (segs ! length ks)
        \<and> (\<exists>w. map_of (h a) name = Some (Accessor w)))"
proof (induction h v segs rule: getter_runs.induct)
  case (1 h v)
  show ?case by simp
next
  case (2 h v p)
  show ?case by simp
next
  case (3 h v seg s segs)
  let ?S = "s # segs"
  let ?R = "\<lambda>u S ks. Suc (length ks) < length S
        \<and> prefix_path h u (take (length ks) S) ks
        \<and> follow h u ks = Object a
        \<and> startsWith name (S ! length ks)
        \<and> (\<exists>w. map_of (h a) name = Some (Accessor w))"
  have IH: "(a, name) \<in> set (getter_runs h (value_of h v k) ?S)
      \<longleftrightarrow> (\<exists>ks. ?R (value_of h v k) ?S ks)"
    if "k \<in> set (names_of h v)" "startsWith k seg" for k
    using "3" [of k] that by simp
  show ?case
  proof
    assume "(a, name) \<in> set (getter_runs h v (seg # ?S))"
    then obtain k where k: "k \<in> set (names_of h v)" "startsWith k seg"
      and disj: "(a, name) \<in> set (accessor_reads h v k)
                 \<or> (a, name) \<in> set (getter_runs h (value_of h v k) ?S)"
      by auto
    from disj show "\<exists>ks. ?R v (seg # ?S) ks"
    proof
      assume "(a, name) \<in> set (accessor_reads h v k)"
      then have "v = Object a" "k = name" "\<exists>w. map_of (h a) name = Some (Accessor w)"
        by (simp_all add: accessor_reads_iff)
      with k have "?R v (seg # ?S) []" by simp
      then show ?thesis by blast
    next
      assume "(a, name) \<in> set (getter_runs h (value_of h v k) ?S)"
      with IH [OF k] obtain ks where "?R (value_of h v k) ?S ks" by blast
      with k have "?R v (seg # ?S) (k # ks)" by simp
      then show ?thesis by blast
    qed
  next
    assume "\<exists>ks. ?R v (seg # ?S) ks"
    then obtain ks where R: "?R v (seg # ?S) ks" by blast
    show "(a, name) \<in> set (getter_runs h v (seg # ?S))"
    proof (cases ks)
      case Nil
      with R have v: "v = Object a" and sw: "startsWith name seg"
        and acc: "\<exists>w. map_of (h a) name = Some (Accessor w)" by simp_all
      from acc v have "name \<in> set (names_of h v)" by (auto intro: map_of_names_of)
      moreover from v acc have "(a, name) \<in> set (accessor_reads h v name)"
        by (simp add: accessor_reads_iff)
      ultimately show ?thesis using sw by auto
    next
      case (Cons k ks')
      with R have k: "k \<in> set (names_of h v)" "startsWith k seg"
        and R': "?R (value_of h v k) ?S ks'" by simp_all
      from IH [OF k] R' have "(a, name) \<in> set (getter_runs h (value_of h v k) ?S)" by blast
      with k show ?thesis by auto
    qed
  qed
qed

text \<open>
  Claim C4 has the resolution never run a getter. In a namespace whose property
  \<^verbatim>\<open>a\<close> is an accessor, the query \<^verbatim>\<open>a.\<close> reads the value of \<^verbatim>\<open>a\<close>
  with \<^verbatim>\<open>duk_get_prop_string\<close> to enumerate it, and the read runs the getter.
\<close>

theorem C4_getter_counterexample:
  "autocompleteSubstep (engine ns_getter) (Object 0) ''a.'' new_plugin
     = Inr (\<lparr>heap = ns_getter, global_object = 0, getter_calls = [(0, ''a'')]\<rparr>,
            new_plugin\<lparr>autocomplete := [''b'']\<rparr>)
   \<and> getter_calls (engine ns_getter) = []"
  by (simp add: autocompleteSubstep.simps copy_segment_start duk_enum_def
        duk_get_prop_string_def engine_def ns_getter_def new_plugin_def)

text \<open>
  Claim C4, amended. A resolution that returns has written nothing to the object graph
  itself. It has read, with \<^verbatim>\<open>duk_get_prop_string\<close>, the value of every property
  it followed: every property of a node the traversal reaches whose name begins with
  the segment of that step, a segment before the last. Each read of an accessor
  property has run its getter, so that the getters run are exactly those of the
  accessor properties followed, in the order of the walk. A query without a dot reads
  no property value: it runs no getter and leaves the whole engine context as it was.
\<close>

theorem C4_read_only:
  assumes "autocompleteSubstep ctx v str that = Inr (ctx', that')"
  shows "heap ctx' = heap ctx \<and> global_object ctx' = global_object ctx
     \<and> getter_calls ctx' = getter_calls ctx @ getter_runs (heap ctx) v (split_dots str)
     \<and> (\<forall>a name. (a, name) \<in> set (getter_runs (heap ctx) v (split_dots str)) \<longleftrightarrow>
           (\<exists>ks. Suc (length ks) < length (split_dots str)
              \<and> prefix_path (heap ctx) v (take (length ks) (split_dots str)) ks
              \<and> follow (heap ctx) v ks = Object a
              \<and> prefix (split_dots str ! length ks) name
              \<and> (\<exists>w. map_of (heap ctx a) name = Some (Accessor w))))
     \<and> (CHR ''.'' \<notin> set str \<longrightarrow> ctx' = ctx)"
proof -
  from walk_candidates(1) [OF assms]
  have frame: "heap ctx' = heap ctx \<and> global_object ctx' = global_object ctx" by simp
  have calls: "getter_calls ctx' = getter_calls ctx @ getter_runs (heap ctx) v (split_dots str)"
    by (rule walk_getters(1) [OF assms])
  have runs: "\<forall>a name. (a, name) \<in> set (getter_runs (heap ctx) v (split_dots str)) \<longleftrightarrow>
           (\<exists>ks. Suc (length ks) < length (split_dots str)
              \<and> prefix_path (heap ctx) v (take (length ks) (split_dots str)) ks
              \<and> follow (heap ctx) v ks = Object a
              \<and> prefix (split_dots str ! length ks) name
              \<and> (\<exists>w. map_of (heap ctx a) name = Some (Accessor w)))"
    by (simp only: getter_runs_iff startsWith_prefix) simp
  have "ctx' = ctx" if nodot: "CHR ''.'' \<notin> set str"
  proof -
    from assms obtain a where v: "v = Object a"
      by (cases v) (simp_all add: autocompleteSubstep.simps duk_enum_def split: sum.splits)
    from assms show ?thesis
      unfolding v walk_last_segment [OF nodot] by (simp split: if_splits)
  qed
  with frame calls runs show ?thesis by blast
qed

theorem C4_read_only_witness:
  "autocompleteSubstep (engine ns_getter) (Object 0) ''a'' new_plugin
     = Inr (engine ns_getter, new_plugin\<lparr>autocomplete := [''a'']\<rparr>)
   \<and> (\<exists>ctx' that'. autocompleteSubstep (engine ns_getter) (Object 0) ''a.'' new_plugin
           = Inr (ctx', that')
         \<and> heap ctx' = ns_getter \<and> getter_calls ctx' = [(0, ''a'')])"
proof -
  have "CHR ''.'' \<notin> set ''a''" by simp
  from walk_last_segment [OF this, of "engine ns_getter" 0 new_plugin]
  obtain ctx1 where walk1: "autocompleteSubstep (engine ns_getter) (Object 0) ''a'' new_plugin
     = Inr (ctx1, new_plugin\<lparr>autocomplete := [''a'']\<rparr>)"
    by (simp add: engine_def ns_getter_def new_plugin_def)
  from C4_read_only [OF walk1] have "ctx1 = engine ns_getter" by simp
  with walk1 have one: "autocompleteSubstep (engine ns_getter) (Object 0) ''a'' new_plugin
     = Inr (engine ns_getter, new_plugin\<lparr>autocomplete := [''a'']\<rparr>)" by simp
  obtain ctx2 that2 where walk2:
    "autocompleteSubstep (engine ns_getter) (Object 0) ''a.'' new_plugin = Inr (ctx2, that2)"
    by (simp add: autocompleteSubstep.simps copy_segment_start duk_enum_def
          duk_get_prop_string_def engine_def ns_getter_def new_plugin_def)
  have runs: "getter_runs ns_getter (Object 0) (split_dots ''a.'') = [(0, ''a'')]"
    by (simp add: names_of_def accessor_reads_def ns_getter_def)
  from C4_read_only [OF walk2] runs
  have "heap ctx2 = ns_getter \<and> getter_calls ctx2 = [(0, ''a'')]"
    by (simp add: engine_def)
  with walk2 one show ?thesis by blast
qed

end
